theory Spec2Isabelle
  imports Main "HOL-Library.Word"
begin

section \<open>Text: characters and the string operations of the validator\<close>

text \<open>
  The validator of \<^verbatim>\<open>scripts/validate_cdc_excludes.py\<close> works on Python \<^verbatim>\<open>str\<close> values.
  They are modelled as \<^typ>\<open>string\<close> over 7-bit ASCII: the character classes and the case
  mappings below are Python's on the code points 0 to 127, and a character above 127 is
  treated as caseless, not a word character and not whitespace.
\<close>

definition newline :: char where
  "newline = CHR 0x0A"

text \<open>\<^verbatim>\<open>\s\<close> and \<^verbatim>\<open>str.isspace\<close>: tab, line feed, vertical tab, form feed, carriage return,
  the four separators 0x1C to 0x1F and the space.\<close>

definition is_space :: "char \<Rightarrow> bool" where
  "is_space c = (let n = (of_char c :: nat) in (9 \<le> n \<and> n \<le> 13) \<or> (28 \<le> n \<and> n \<le> 32))"

text \<open>\<^verbatim>\<open>\w\<close>: digits, letters and the underscore.\<close>

definition is_word :: "char \<Rightarrow> bool" where
  "is_word c = (let n = (of_char c :: nat) in
     (48 \<le> n \<and> n \<le> 57) \<or> (65 \<le> n \<and> n \<le> 90) \<or> n = 95 \<or> (97 \<le> n \<and> n \<le> 122))"

definition upper_char :: "char \<Rightarrow> char" where
  "upper_char c = (let n = (of_char c :: nat) in
     if 97 \<le> n \<and> n \<le> 122 then char_of (n - 32) else c)"

definition lower_char :: "char \<Rightarrow> char" where
  "lower_char c = (let n = (of_char c :: nat) in
     if 65 \<le> n \<and> n \<le> 90 then char_of (n + 32) else c)"

text \<open>\<^verbatim>\<open>str.upper()\<close>.\<close>

definition upper :: "string \<Rightarrow> string" where
  "upper s = map upper_char s"

text \<open>\<^verbatim>\<open>str.strip()\<close>: leading and trailing whitespace removed.\<close>

definition strip :: "string \<Rightarrow> string" where
  "strip s = rev (dropWhile is_space (rev (dropWhile is_space s)))"

text \<open>\<^verbatim>\<open>str.split(sep)\<close> for a separator of one character: never the empty list.\<close>

fun split_sep :: "char \<Rightarrow> string \<Rightarrow> string list" where
  "split_sep c [] = [[]]"
| "split_sep c (x # xs) =
     (if x = c then [] # split_sep c xs
      else (case split_sep c xs of
              w # ws \<Rightarrow> (x # w) # ws
            | [] \<Rightarrow> [[x]]))"

text \<open>Two texts that differ at most in the case of their letters (\<^verbatim>\<open>re.IGNORECASE\<close>).\<close>

definition ci_eq :: "string \<Rightarrow> string \<Rightarrow> bool" where
  "ci_eq a b = (map lower_char a = map lower_char b)"

definition ci_prefix :: "string \<Rightarrow> string \<Rightarrow> bool" where
  "ci_prefix l s = (length l \<le> length s \<and> ci_eq (take (length l) s) l)"

section \<open>The regular expressions of the validator\<close>

text \<open>
  The three patterns of the script are sequences of literals and of greedy repetitions of
  a character class. \<open>Lit l\<close> is the literal \<open>l\<close> (as \<^verbatim>\<open>re.escape\<close> makes it), compared
  ignoring case; \<open>Star c\<close> is \<^verbatim>\<open>[c]*\<close> and \<open>Plus c\<close> is \<^verbatim>\<open>[c]+\<close>.
\<close>

datatype item = Lit string | Star "char \<Rightarrow> bool" | Plus "char \<Rightarrow> bool"

text \<open>
  \<open>rx_match p s\<close> matches \<open>p\<close> at the start of \<open>s\<close> the way the backtracking engine of
  \<^verbatim>\<open>re\<close> does: a repetition takes as many characters as it can and gives them back
  one at a time while the rest of the pattern fails. The result is the text consumed by
  each item of the pattern, in order.
\<close>

fun rx_match :: "item list \<Rightarrow> string \<Rightarrow> string list option" where
  "rx_match [] s = Some []"
| "rx_match (Lit l # r) s =
     (if ci_prefix l s
      then map_option (Cons (take (length l) s)) (rx_match r (drop (length l) s))
      else None)"
| "rx_match (Star c # r) [] = map_option (Cons []) (rx_match r [])"
| "rx_match (Star c # r) (x # xs) =
     (if c x
      then (case rx_match (Star c # r) xs of
              Some (g # gs) \<Rightarrow> Some ((x # g) # gs)
            | _ \<Rightarrow> map_option (Cons []) (rx_match r (x # xs)))
      else map_option (Cons []) (rx_match r (x # xs)))"
| "rx_match (Plus c # r) [] = None"
| "rx_match (Plus c # r) (x # xs) =
     (if c x
      then (case rx_match (Star c # r) xs of
              Some (g # gs) \<Rightarrow> Some ((x # g) # gs)
            | _ \<Rightarrow> None)
      else None)"

text \<open>\<^verbatim>\<open>re.search\<close>: the match at the leftmost position where the pattern matches.\<close>

fun re_search :: "item list \<Rightarrow> string \<Rightarrow> string list option" where
  "re_search p [] = rx_match p []"
| "re_search p (x # xs) =
     (case rx_match p (x # xs) of Some g \<Rightarrow> Some g | None \<Rightarrow> re_search p xs)"

text \<open>
  \<^verbatim>\<open>re.finditer\<close>, as the list of the matched texts (\<^verbatim>\<open>match.group(0)\<close>): the matches
  from left to right, each search starting where the previous match ended. The patterns
  it is used with here cannot match the empty text.
\<close>

function finditer :: "item list \<Rightarrow> string \<Rightarrow> string list" where
  "finditer p [] = (case rx_match p [] of Some segs \<Rightarrow> [concat segs] | None \<Rightarrow> [])"
| "finditer p (x # xs) =
     (case rx_match p (x # xs) of
        Some segs \<Rightarrow> concat segs # finditer p (drop (length (concat segs) - 1) xs)
      | None \<Rightarrow> finditer p xs)"
  by pat_completeness auto
termination
  by (relation "measure (\<lambda>(p, s). length s)") auto

text \<open>The character classes of the three patterns.\<close>

definition table_stmt_char :: "char \<Rightarrow> bool" where
  "table_stmt_char c = (is_word c \<or> c = CHR ''.'' \<or> c = CHR ''*'')"

definition table_ref_char :: "char \<Rightarrow> bool" where
  "table_ref_char c = (is_word c \<or> c = CHR ''.'')"

definition not_newline :: "char \<Rightarrow> bool" where
  "not_newline c = (c \<noteq> newline)"

definition not_comma_space :: "char \<Rightarrow> bool" where
  "not_comma_space c = (c \<noteq> CHR '','' \<and> \<not> is_space c)"

text \<open>\<^verbatim>\<open>TABLE\s+[\w\.\*]+[^\n]*\<close>, of \<^verbatim>\<open>find_table_statements\<close>.\<close>

definition table_pattern :: "item list" where
  "table_pattern = [Lit ''TABLE'', Plus is_space, Plus table_stmt_char, Star not_newline]"

text \<open>\<^verbatim>\<open>TABLE\s+([\w\.]+)\<close>, of \<^verbatim>\<open>extract_table_name\<close>; the group is the third item.\<close>

definition name_pattern :: "item list" where
  "name_pattern = [Lit ''TABLE'', Plus is_space, Plus table_ref_char]"

text \<open>\<^verbatim>\<open>COLEXC\s+[^,\s]*{re.escape(field)}[^,\s]*\<close>, of \<^verbatim>\<open>validate_colexc_statements\<close>.\<close>

definition colexc_pattern :: "string \<Rightarrow> item list" where
  "colexc_pattern field =
     [Lit ''COLEXC'', Plus is_space, Star not_comma_space, Lit field, Star not_comma_space]"

section \<open>Python values and exceptions\<close>

datatype py_exn = AttributeError | TypeError | KeyError | RecursionError

datatype error = CDCValidationError

definition exn_bind :: "'e + 'a \<Rightarrow> ('a \<Rightarrow> 'e + 'b) \<Rightarrow> 'e + 'b" where
  "exn_bind m f = (case m of Inl e \<Rightarrow> Inl e | Inr x \<Rightarrow> f x)"

text \<open>
  What \<^verbatim>\<open>json.load\<close> returns: \<^verbatim>\<open>None\<close>, a bool, an int, a float (its 64 bits), a str, a
  list, or a dict (its items in order; the keys of a parsed object are distinct).
\<close>

datatype json =
    JNull
  | JBool bool
  | JInt int
  | JFloat "64 word"
  | JStr string
  | JArr "json list"
  | JObj "(string \<times> json) list"

text \<open>\<^verbatim>\<open>needle in hay\<close> for two strings.\<close>

fun contains_sub :: "string \<Rightarrow> string \<Rightarrow> bool" where
  "contains_sub needle [] = (needle = [])"
| "contains_sub needle (x # xs) =
     (take (length needle) (x # xs) = needle \<or> contains_sub needle xs)"

text \<open>\<^verbatim>\<open>obj.get(key, default)\<close>: only a dict has the method.\<close>

definition py_get :: "json \<Rightarrow> string \<Rightarrow> json \<Rightarrow> py_exn + json" where
  "py_get obj key dflt =
     (case obj of
        JObj kvs \<Rightarrow> Inr (case map_of kvs key of Some v \<Rightarrow> v | None \<Rightarrow> dflt)
      | _ \<Rightarrow> Inl AttributeError)"

text \<open>\<^verbatim>\<open>key in obj\<close> for a str key: a key of a dict, an element of a list, a substring of a
  str; any other value is not iterable.\<close>

definition py_in :: "string \<Rightarrow> json \<Rightarrow> py_exn + bool" where
  "py_in key obj =
     (case obj of
        JObj kvs \<Rightarrow> Inr (key \<in> set (map fst kvs))
      | JArr xs \<Rightarrow> Inr (JStr key \<in> set xs)
      | JStr s \<Rightarrow> Inr (contains_sub key s)
      | _ \<Rightarrow> Inl TypeError)"

text \<open>\<^verbatim>\<open>obj[key]\<close> for a str key.\<close>

definition py_getitem :: "json \<Rightarrow> string \<Rightarrow> py_exn + json" where
  "py_getitem obj key =
     (case obj of
        JObj kvs \<Rightarrow> (case map_of kvs key of Some v \<Rightarrow> Inr v | None \<Rightarrow> Inl KeyError)
      | _ \<Rightarrow> Inl TypeError)"

text \<open>\<^verbatim>\<open>for x in obj\<close>: the elements of a list, the keys of a dict, the characters of a str.\<close>

definition py_iter :: "json \<Rightarrow> py_exn + json list" where
  "py_iter obj =
     (case obj of
        JArr xs \<Rightarrow> Inr xs
      | JObj kvs \<Rightarrow> Inr (map (\<lambda>kv. JStr (fst kv)) kvs)
      | JStr s \<Rightarrow> Inr (map (\<lambda>c. JStr [c]) s)
      | _ \<Rightarrow> Inl TypeError)"

section \<open>Reference Loader: \<^verbatim>\<open>get_exclude_fields\<close>\<close>

text \<open>
  A row of the result set is \<^verbatim>\<open>(table_name, field_name)\<close>; a cell is a string or SQL NULL
  (\<^verbatim>\<open>None\<close>, on which \<^verbatim>\<open>.upper()\<close> raises). The rows are the input of the model: the query
  itself is the warehouse's.
\<close>

type_synonym row = "string option \<times> string option"

type_synonym exclusion_map = "string \<rightharpoonup> string list"

fun group_rows :: "row list \<Rightarrow> exclusion_map \<Rightarrow> py_exn + exclusion_map" where
  "group_rows [] exclude_map = Inr exclude_map"
| "group_rows ((Some t, Some f) # results) exclude_map =
     (let table_name = upper t;
          field_name = upper f;
          m = (if exclude_map table_name = None then exclude_map(table_name \<mapsto> [])
               else exclude_map)
      in group_rows results
           (m(table_name \<mapsto> (case m table_name of Some fs \<Rightarrow> fs | None \<Rightarrow> []) @ [field_name])))"
| "group_rows (r # results) exclude_map = Inl AttributeError"

definition get_exclude_fields :: "row list \<Rightarrow> error + exclusion_map" where
  "get_exclude_fields results =
     (case group_rows results Map.empty of
        Inl e \<Rightarrow> Inl CDCValidationError
      | Inr exclude_map \<Rightarrow> Inr exclude_map)"

section \<open>Statement Extractor: \<^verbatim>\<open>extract_table_configs\<close>\<close>

text \<open>A table declaration: \<^verbatim>\<open>(extract_name, table_statement, full_config_text)\<close>. The name is
  whatever value the document has under \<^verbatim>\<open>name\<close>.\<close>

type_synonym table_config = "json \<times> string \<times> string"

text \<open>
  The nested \<^verbatim>\<open>find_table_statements\<close>, with the list \<^verbatim>\<open>table_configs\<close> it appends to
  passed in and returned. Its \<^verbatim>\<open>prefix\<close> argument is built and never read.

  The function calls itself once per level of nesting, and the interpreter raises
  \<^verbatim>\<open>RecursionError\<close> when a call would exceed its recursion limit. \<open>frames\<close> is the number
  of nested Python calls the interpreter still allows where the function is called. For a
  string the call of \<^verbatim>\<open>re.finditer\<close> needs frames of its own, \<open>re_frames compiled\<close> of them:
  more while the pattern is not yet compiled and cached, fewer afterwards. Both depend on
  the interpreter and are parameters of the model; whether the pattern is compiled is
  passed along with the list. An exception ends the walk, and the loops with it.
\<close>

fun find_table_statements ::
  "(bool \<Rightarrow> nat) \<Rightarrow> nat \<Rightarrow> json \<Rightarrow> json \<Rightarrow> table_config list \<times> bool
   \<Rightarrow> py_exn + table_config list \<times> bool" where
  "find_table_statements re_frames frames extract_name (JStr s) st =
     (if frames = 0 then Inl RecursionError
      else (case st of (table_configs, compiled) \<Rightarrow>
              if frames - 1 < re_frames compiled then Inl RecursionError
              else Inr (table_configs
                          @ map (\<lambda>m. (extract_name, strip m, s)) (finditer table_pattern s),
                        True)))"
| "find_table_statements re_frames frames extract_name (JObj kvs) st =
     (if frames = 0 then Inl RecursionError
      else fold (\<lambda>kv r. case r of
                   Inl e \<Rightarrow> Inl e
                 | Inr st' \<Rightarrow>
                     find_table_statements re_frames (frames - 1) extract_name (snd kv) st')
             kvs (Inr st))"
| "find_table_statements re_frames frames extract_name (JArr xs) st =
     (if frames = 0 then Inl RecursionError
      else fold (\<lambda>item r. case r of
                   Inl e \<Rightarrow> Inl e
                 | Inr st' \<Rightarrow>
                     find_table_statements re_frames (frames - 1) extract_name item st')
             xs (Inr st))"
| "find_table_statements re_frames frames extract_name obj st =
     (if frames = 0 then Inl RecursionError else Inr st)"

text \<open>
  The list \<^verbatim>\<open>config_sections\<close> of the loop body. Nothing reads it afterwards, but the
  expressions that fill it can raise.
\<close>

definition config_sections_of :: "json \<Rightarrow> py_exn + json list" where
  "config_sections_of cfg =
     exn_bind (py_in ''raw_config'' cfg) (\<lambda>has_raw.
     exn_bind (if has_raw
               then exn_bind (py_getitem cfg ''raw_config'') (\<lambda>v. Inr [v])
               else Inr []) (\<lambda>config_sections.
     exn_bind (py_in ''parameters'' cfg) (\<lambda>has_parameters.
       if has_parameters
       then exn_bind (py_getitem cfg ''parameters'') (\<lambda>p.
              case p of
                JStr s \<Rightarrow> Inr (config_sections @ [p])
              | JArr xs \<Rightarrow> Inr (config_sections @ xs)
              | _ \<Rightarrow> Inr config_sections)
       else Inr config_sections)))"

text \<open>One round of the loop over the extracts; every round calls the walk at the same
  depth of the stack.\<close>

definition scan_extract ::
  "(bool \<Rightarrow> nat) \<Rightarrow> nat \<Rightarrow> json \<Rightarrow> table_config list \<times> bool
   \<Rightarrow> py_exn + table_config list \<times> bool" where
  "scan_extract re_frames frames extract st =
     exn_bind (py_get extract ''name'' (JStr ''UNKNOWN'')) (\<lambda>extract_name.
     exn_bind (py_get extract ''config'' (JObj [])) (\<lambda>cfg.
     exn_bind (config_sections_of cfg) (\<lambda>config_sections.
       find_table_statements re_frames frames extract_name cfg st)))"

fun scan_extracts ::
  "(bool \<Rightarrow> nat) \<Rightarrow> nat \<Rightarrow> json list \<Rightarrow> table_config list \<times> bool
   \<Rightarrow> py_exn + table_config list \<times> bool" where
  "scan_extracts re_frames frames [] st = Inr st"
| "scan_extracts re_frames frames (extract # rest) st =
     exn_bind (scan_extract re_frames frames extract st) (scan_extracts re_frames frames rest)"

text \<open>\<open>compiled\<close> tells whether the table pattern is in the cache of \<^verbatim>\<open>re\<close> when the function
  is called.\<close>

definition extract_table_configs ::
  "(bool \<Rightarrow> nat) \<Rightarrow> nat \<Rightarrow> bool \<Rightarrow> json \<Rightarrow> py_exn + table_config list" where
  "extract_table_configs re_frames frames compiled extract_config =
     exn_bind (py_get extract_config ''extracts'' (JArr [])) (\<lambda>v.
     exn_bind (py_iter v) (\<lambda>extracts.
     exn_bind (scan_extracts re_frames frames extracts ([], compiled)) (\<lambda>st.
       Inr (fst st))))"

section \<open>Rule Matcher: \<^verbatim>\<open>extract_table_name\<close> and \<^verbatim>\<open>validate_colexc_statements\<close>\<close>

text \<open>\<^verbatim>\<open>match.group(1)\<close> of the search for the name pattern, \<open>None\<close> when there is no match.\<close>

definition table_ref :: "string \<Rightarrow> string option" where
  "table_ref table_statement =
     (case re_search name_pattern table_statement of
        Some [kw, ws, ident] \<Rightarrow> Some ident
      | _ \<Rightarrow> None)"

definition extract_table_name :: "string \<Rightarrow> string" where
  "extract_table_name table_statement =
     (case table_ref table_statement of
        Some ref \<Rightarrow>
          upper (if CHR ''.'' \<in> set ref then last (split_sep (CHR ''.'') ref) else ref)
      | None \<Rightarrow> [])"

text \<open>
  The two messages appended to \<^verbatim>\<open>errors\<close>, by the values formatted into them:
  "\<open>extract_name\<close>: Could not extract table name from: \<open>table_statement\<close>" and
  "\<open>extract_name\<close>: Table \<open>table_name\<close> missing COLEXC for fields: \<open>missing_colexc\<close>".
\<close>

datatype validation_error =
    CouldNotExtract json string
  | MissingColexc json string "string list"

text \<open>The test \<^verbatim>\<open>re.search(colexc_pattern, full_config, re.IGNORECASE)\<close>.\<close>

definition colexc_found :: "string \<Rightarrow> string \<Rightarrow> bool" where
  "colexc_found field full_config = (re_search (colexc_pattern field) full_config \<noteq> None)"

text \<open>The inner loop, which collects \<^verbatim>\<open>missing_colexc\<close>.\<close>

definition missing_colexc :: "string list \<Rightarrow> string \<Rightarrow> string list" where
  "missing_colexc required_fields full_config =
     fold (\<lambda>field missing. if \<not> colexc_found field full_config then missing @ [field] else missing)
       required_fields []"

text \<open>One round of the outer loop; \<open>exclude_fields\<close> is the attribute \<^verbatim>\<open>self.exclude_fields\<close>.\<close>

definition validate_step ::
  "exclusion_map \<Rightarrow> table_config \<Rightarrow> validation_error list \<Rightarrow> validation_error list" where
  "validate_step exclude_fields tc errors =
     (case tc of (extract_name, table_statement, full_config) \<Rightarrow>
        (let table_name = extract_table_name table_statement in
         if table_name = [] then errors @ [CouldNotExtract extract_name table_statement]
         else (case exclude_fields table_name of
                 Some required_fields \<Rightarrow>
                   (let missing = missing_colexc required_fields full_config in
                    if missing \<noteq> [] then errors @ [MissingColexc extract_name table_name missing]
                    else errors)
               | None \<Rightarrow> errors)))"

definition validate_colexc_statements ::
  "exclusion_map \<Rightarrow> table_config list \<Rightarrow> validation_error list" where
  "validate_colexc_statements exclude_fields table_configs =
     fold (validate_step exclude_fields) table_configs []"

section \<open>Driver: the environment check of \<^verbatim>\<open>main\<close>\<close>

text \<open>
  \<^verbatim>\<open>os.getenv\<close> gives \<open>None\<close> for a variable that is not set; \<^verbatim>\<open>all([...])\<close> fails on \<open>None\<close>
  and on the empty string. The check either prints four lines and exits with status 1, or
  lets \<^verbatim>\<open>main\<close> go on with the three values. The pictograph that starts the first line
  is left out of the modelled text.
\<close>

type_synonym environ = "string \<rightharpoonup> string"

definition truthy :: "string option \<Rightarrow> bool" where
  "truthy v = (case v of None \<Rightarrow> False | Some s \<Rightarrow> s \<noteq> [])"

definition missing_env_lines :: "string list" where
  "missing_env_lines =
     [''Missing required Databricks environment variables:'',
      ''   - DATABRICKS_SERVER_HOSTNAME'',
      ''   - DATABRICKS_HTTP_PATH'',
      ''   - DATABRICKS_ACCESS_TOKEN'']"

definition main_env_check ::
  "environ \<Rightarrow> (string list \<times> nat) + (string option \<times> string option \<times> string option)" where
  "main_env_check env =
     (let databricks_hostname = env ''DATABRICKS_SERVER_HOSTNAME'';
          databricks_http_path = env ''DATABRICKS_HTTP_PATH'';
          databricks_token = env ''DATABRICKS_ACCESS_TOKEN''
      in if \<not> (truthy databricks_hostname \<and> truthy databricks_http_path \<and> truthy databricks_token)
         then Inl (missing_env_lines, 1)
         else Inr (databricks_hostname, databricks_http_path, databricks_token))"

section \<open>Specification-side definitions\<close>

text \<open>
  The definitions of this section follow the words of the specification; the theorems
  below compare them with the functions translated from the script.
\<close>

text \<open>The upper-cased field names of the rows of table \<open>t\<close>, in row order, one per row.\<close>

fun rows_for :: "string \<Rightarrow> row list \<Rightarrow> string list" where
  "rows_for t [] = []"
| "rows_for t ((Some t', Some f) # rows) =
     (if upper t' = t then upper f # rows_for t rows else rows_for t rows)"
| "rows_for t (r # rows) = rows_for t rows"

text \<open>"A listing of which of the variables are missing": one line per variable that is
  not set, or empty.\<close>

definition listing_of_missing :: "environ \<Rightarrow> string list" where
  "listing_of_missing env =
     map (\<lambda>v. ''   - '' @ v)
       (filter (\<lambda>v. \<not> truthy (env v))
          [''DATABRICKS_SERVER_HOSTNAME'', ''DATABRICKS_HTTP_PATH'', ''DATABRICKS_ACCESS_TOKEN''])"

text \<open>The texts an item of a pattern stands for.\<close>

fun seg_ok :: "item \<Rightarrow> string \<Rightarrow> bool" where
  "seg_ok (Lit l) g = ci_eq g l"
| "seg_ok (Star c) g = list_all c g"
| "seg_ok (Plus c) g = (g \<noteq> [] \<and> list_all c g)"

text \<open>
  The errors one declaration contributes: a could-not-extract error when no table name
  comes out of its statement; otherwise, when the table has required fields and some of
  them have no exclusion statement in the context, one error listing exactly those; and
  otherwise nothing.
\<close>

definition declaration_errors :: "exclusion_map \<Rightarrow> table_config \<Rightarrow> validation_error list" where
  "declaration_errors exclude_fields tc =
     (case tc of (extract_name, table_statement, full_config) \<Rightarrow>
        if extract_table_name table_statement = []
        then [CouldNotExtract extract_name table_statement]
        else (case exclude_fields (extract_table_name table_statement) of
                None \<Rightarrow> []
              | Some required_fields \<Rightarrow>
                  if list_all (\<lambda>f. colexc_found f full_config) required_fields then []
                  else [MissingColexc extract_name (extract_table_name table_statement)
                          (filter (\<lambda>f. \<not> colexc_found f full_config) required_fields)]))"

text \<open>
  The string values reachable under a value, through mappings and sequences of any depth,
  each once, in depth-first order.
\<close>

fun strings_under :: "json \<Rightarrow> string list" where
  "strings_under (JStr s) = [s]"
| "strings_under (JArr xs) = concat (map strings_under xs)"
| "strings_under (JObj kvs) = concat (map (\<lambda>kv. strings_under (snd kv)) kvs)"
| "strings_under obj = []"

text \<open>
  One declaration per match of the table pattern in a string: the extract's name, the
  matched text without surrounding whitespace, and the whole string as its context.
\<close>

definition declarations_in :: "json \<Rightarrow> string \<Rightarrow> table_config list" where
  "declarations_in extract_name s =
     map (\<lambda>m. (extract_name, strip m, s)) (finditer table_pattern s)"

definition declarations_under :: "json \<Rightarrow> json \<Rightarrow> table_config list" where
  "declarations_under extract_name cfg =
     concat (map (declarations_in extract_name) (strings_under cfg))"

text \<open>
  The shape of an extract entry: whether a value is a mapping, the value under \<^verbatim>\<open>name\<close>
  (or the placeholder), and the value under \<^verbatim>\<open>config\<close> (or the empty mapping).
\<close>

definition is_obj :: "json \<Rightarrow> bool" where
  "is_obj j = (case j of JObj kvs \<Rightarrow> True | _ \<Rightarrow> False)"

definition name_of :: "json \<Rightarrow> json" where
  "name_of extract =
     (case extract of
        JObj kvs \<Rightarrow> (case map_of kvs ''name'' of Some v \<Rightarrow> v | None \<Rightarrow> JStr ''UNKNOWN'')
      | _ \<Rightarrow> JStr ''UNKNOWN'')"

definition config_of :: "json \<Rightarrow> json" where
  "config_of extract =
     (case extract of
        JObj kvs \<Rightarrow> (case map_of kvs ''config'' of Some v \<Rightarrow> v | None \<Rightarrow> JObj [])
      | _ \<Rightarrow> JObj [])"

text \<open>
  The depth of nesting of a value: the number of calls of the walk that are active at once
  at its deepest place.
\<close>

fun nesting_depth :: "json \<Rightarrow> nat" where
  "nesting_depth (JArr xs) = Suc (fold max (map nesting_depth xs) 0)"
| "nesting_depth (JObj kvs) = Suc (fold max (map (\<lambda>kv. nesting_depth (snd kv)) kvs) 0)"
| "nesting_depth obj = Suc 0"

section \<open>Case mapping\<close>

lemma of_char_less_256: "(of_char c :: nat) < 256"
  by (metis of_char_mod_256 mod_less_divisor zero_less_numeral)

lemma upper_char_idem: "upper_char (upper_char c) = upper_char c"
proof -
  have "(of_char c :: nat) < 256" by (rule of_char_less_256)
  then show ?thesis
    by (auto simp: upper_char_def Let_def)
qed

lemma upper_idem: "upper (upper s) = upper s"
  by (simp add: upper_def upper_char_idem)

section \<open>Reference Loader\<close>

lemma group_rows_step:
  "group_rows ((Some t, Some f) # rows) m =
   group_rows rows
     (m(upper t \<mapsto> (case m (upper t) of Some fs \<Rightarrow> fs | None \<Rightarrow> []) @ [upper f]))"
  by (cases "m (upper t)") (simp_all add: Let_def)

text \<open>The loop invariant of the grouping: what the map holds for a table is what it held
  before, followed by the fields of the rows read since.\<close>

lemma group_rows_lookup:
  "group_rows rows m0 = Inr m \<Longrightarrow>
   m t = (if m0 t = None \<and> rows_for t rows = [] then None
          else Some ((case m0 t of Some fs \<Rightarrow> fs | None \<Rightarrow> []) @ rows_for t rows))"
proof (induction rows arbitrary: m0)
  case Nil
  then show ?case by (auto split: option.splits)
next
  case (Cons r rows)
  obtain a b where r: "r = (a, b)" by (cases r)
  show ?case
  proof (cases "\<exists>t' f. r = (Some t', Some f)")
    case True
    then obtain t' f where r': "r = (Some t', Some f)" by blast
    let ?m1 = "m0(upper t' \<mapsto> (case m0 (upper t') of Some fs \<Rightarrow> fs | None \<Rightarrow> []) @ [upper f])"
    from Cons.prems r' have "group_rows rows ?m1 = Inr m"
      by (simp only: group_rows_step)
    from Cons.IH [OF this] show ?thesis
      unfolding r' by (auto split: option.splits)
  next
    case False
    with r have "group_rows (r # rows) m0 = Inl AttributeError"
      by (cases a; cases b) auto
    with Cons.prems show ?thesis by simp
  qed
qed

lemma get_exclude_fields_lookup:
  "get_exclude_fields rows = Inr m \<Longrightarrow>
   m t = (if rows_for t rows = [] then None else Some (rows_for t rows))"
  using group_rows_lookup [of rows Map.empty m t]
  by (auto simp: get_exclude_fields_def split: sum.splits)

lemma rows_for_upper: "f \<in> set (rows_for t rows) \<Longrightarrow> upper f = f"
  by (induction t rows rule: rows_for.induct) (auto simp: upper_idem split: if_splits)

lemma rows_for_key: "rows_for t rows \<noteq> [] \<Longrightarrow> upper t = t"
  by (induction t rows rule: rows_for.induct) (auto simp: upper_idem split: if_splits)

text \<open>
  C7, as the code has it: the list stored for a table holds the upper-cased field name of
  every row of that table, in row order and one entry per row, so a field named by two
  rows is stored twice; a table with no row has no key.
\<close>

theorem exclusion_map_one_entry_per_row:
  assumes "get_exclude_fields rows = Inr m"
  shows "m t = (if rows_for t rows = [] then None else Some (rows_for t rows))"
  using assms by (rule get_exclude_fields_lookup)

theorem exclusion_map_one_entry_per_row_witness:
  "get_exclude_fields [(Some ''orders'', Some ''ssn''), (Some ''ORDERS'', Some ''Dob'')]
     = Inr (projr (get_exclude_fields
              [(Some ''orders'', Some ''ssn''), (Some ''ORDERS'', Some ''Dob'')]))
   \<and> projr (get_exclude_fields
              [(Some ''orders'', Some ''ssn''), (Some ''ORDERS'', Some ''Dob'')]) ''ORDERS''
     = Some [''SSN'', ''DOB'']"
proof -
  let ?rows = "[(Some ''orders'', Some ''ssn''), (Some ''ORDERS'', Some ''Dob'')]"
  have "\<not> isl (get_exclude_fields ?rows)" by code_simp
  then have h: "get_exclude_fields ?rows = Inr (projr (get_exclude_fields ?rows))" by simp
  have r: "rows_for ''ORDERS'' ?rows = [''SSN'', ''DOB'']" by code_simp
  from exclusion_map_one_entry_per_row [OF h, of "''ORDERS''"] h r show ?thesis by simp
qed

text \<open>
  C7, as stated, fails: two equal rows for table ORDERS and field SSN leave SSN twice in
  the list stored for ORDERS.
\<close>

theorem exclusion_map_duplicates_kept:
  "\<not> isl (get_exclude_fields [(Some ''ORDERS'', Some ''SSN''), (Some ''ORDERS'', Some ''SSN'')])
   \<and> projr (get_exclude_fields
              [(Some ''ORDERS'', Some ''SSN''), (Some ''ORDERS'', Some ''SSN'')]) ''ORDERS''
     = Some [''SSN'', ''SSN'']
   \<and> \<not> distinct [''SSN'', ''SSN'']"
  by code_simp

text \<open>
  C8: whatever the casing of the rows, every key of the exclusion map and every field
  name stored in it is upper-cased (upper-casing it again changes nothing).
\<close>

theorem exclusion_map_upper_cased:
  assumes "get_exclude_fields rows = Inr m" and "m t = Some fs"
  shows "upper t = t \<and> list_all (\<lambda>f. upper f = f) fs"
  using assms get_exclude_fields_lookup [OF assms(1), of t]
    rows_for_upper [of _ t rows] rows_for_key [of t rows]
  by (auto simp: list_all_iff split: if_splits)

theorem exclusion_map_upper_cased_witness:
  "projr (get_exclude_fields [(Some ''Orders'', Some ''ssn''), (Some ''orders'', Some ''Dob'')])
     ''ORDERS'' = Some [''SSN'', ''DOB'']
   \<and> upper ''ORDERS'' = ''ORDERS''
   \<and> list_all (\<lambda>f. upper f = f) [''SSN'', ''DOB'']"
proof -
  let ?rows = "[(Some ''Orders'', Some ''ssn''), (Some ''orders'', Some ''Dob'')]"
  have "\<not> isl (get_exclude_fields ?rows)" by code_simp
  then have h: "get_exclude_fields ?rows = Inr (projr (get_exclude_fields ?rows))" by simp
  have k: "projr (get_exclude_fields ?rows) ''ORDERS'' = Some [''SSN'', ''DOB'']" by code_simp
  from exclusion_map_upper_cased [OF h k] k show ?thesis by simp
qed

section \<open>Driver\<close>

text \<open>
  C9, as the code has it: when any of the three variables is not set, or is empty, the
  check ends the run with status 1 after printing the heading and the names of all three
  variables, whichever of them are missing.
\<close>

theorem missing_environment_aborts:
  assumes "\<not> truthy (env ''DATABRICKS_SERVER_HOSTNAME'')
         \<or> \<not> truthy (env ''DATABRICKS_HTTP_PATH'')
         \<or> \<not> truthy (env ''DATABRICKS_ACCESS_TOKEN'')"
  shows "main_env_check env =
     Inl ([''Missing required Databricks environment variables:'',
           ''   - DATABRICKS_SERVER_HOSTNAME'',
           ''   - DATABRICKS_HTTP_PATH'',
           ''   - DATABRICKS_ACCESS_TOKEN''], 1)"
  using assms by (auto simp: main_env_check_def missing_env_lines_def Let_def)

theorem missing_environment_aborts_witness:
  "\<not> truthy ((Map.empty(''DATABRICKS_SERVER_HOSTNAME'' \<mapsto> ''host'',
                         ''DATABRICKS_HTTP_PATH'' \<mapsto> ''/sql'')) ''DATABRICKS_ACCESS_TOKEN'')
   \<and> main_env_check (Map.empty(''DATABRICKS_SERVER_HOSTNAME'' \<mapsto> ''host'',
                              ''DATABRICKS_HTTP_PATH'' \<mapsto> ''/sql'')) =
     Inl ([''Missing required Databricks environment variables:'',
           ''   - DATABRICKS_SERVER_HOSTNAME'',
           ''   - DATABRICKS_HTTP_PATH'',
           ''   - DATABRICKS_ACCESS_TOKEN''], 1)"
proof -
  let ?env = "Map.empty(''DATABRICKS_SERVER_HOSTNAME'' \<mapsto> ''host'',
                        ''DATABRICKS_HTTP_PATH'' \<mapsto> ''/sql'')"
  have h: "\<not> truthy (?env ''DATABRICKS_ACCESS_TOKEN'')" by (simp add: truthy_def)
  from missing_environment_aborts [of ?env] h show ?thesis by blast
qed

text \<open>
  C9, as stated, fails: with only the access token missing, the lines printed after the
  heading name all three variables, not the one that is missing.
\<close>

theorem missing_environment_lists_all:
  "main_env_check (Map.empty(''DATABRICKS_SERVER_HOSTNAME'' \<mapsto> ''host'',
                            ''DATABRICKS_HTTP_PATH'' \<mapsto> ''/sql'')) = Inl (missing_env_lines, 1)
   \<and> listing_of_missing (Map.empty(''DATABRICKS_SERVER_HOSTNAME'' \<mapsto> ''host'',
                                   ''DATABRICKS_HTTP_PATH'' \<mapsto> ''/sql''))
       = [''   - DATABRICKS_ACCESS_TOKEN'']
   \<and> tl missing_env_lines \<noteq>
       listing_of_missing (Map.empty(''DATABRICKS_SERVER_HOSTNAME'' \<mapsto> ''host'',
                                     ''DATABRICKS_HTTP_PATH'' \<mapsto> ''/sql''))"
  by code_simp

section \<open>The matcher and the language of a pattern\<close>

text \<open>
  A match consumes, item by item, texts that the items stand for, and it is found whenever
  the text at the position starts with such a sequence: the backtracking loses no match.
\<close>

lemma ci_eq_length: "ci_eq a b \<Longrightarrow> length a = length b"
  unfolding ci_eq_def by (metis length_map)

lemma ci_prefix_append: "ci_eq g l \<Longrightarrow> ci_prefix l (g @ rest)"
  by (frule ci_eq_length) (simp add: ci_prefix_def)

lemma rx_match_sound:
  "rx_match p s = Some segs \<Longrightarrow>
   list_all2 seg_ok p segs \<and> s = concat segs @ drop (length (concat segs)) s"
proof (induction p s arbitrary: segs rule: rx_match.induct)
  case (1 s)
  then show ?case by simp
next
  case (2 l r s)
  from "2.prems" have pre: "ci_prefix l s" by (simp split: if_splits)
  with "2.prems" obtain gs where gs: "rx_match r (drop (length l) s) = Some gs"
    and segs: "segs = take (length l) s # gs" by auto
  from "2.IH" [OF pre gs] have ih: "list_all2 seg_ok r gs"
    "drop (length l) s = concat gs @ drop (length (concat gs)) (drop (length l) s)" by auto
  from pre have len: "length l \<le> length s" and ok: "ci_eq (take (length l) s) l"
    by (auto simp: ci_prefix_def)
  have "s = take (length l) s @ drop (length l) s" by simp
  also have "\<dots> = take (length l) s @ concat gs @ drop (length (concat gs)) (drop (length l) s)"
    using ih(2) by simp
  finally have "s = concat segs @ drop (length (concat segs)) s"
    using len by (simp add: segs add.commute min_absorb2)
  with ih(1) ok show ?case by (simp add: segs)
next
  case (3 c r)
  then show ?case by auto
next
  case (4 c r x xs)
  show ?case
  proof (cases "c x \<and> rx_match (Star c # r) xs \<noteq> None")
    case False
    with "4.prems" obtain z where z: "rx_match r (x # xs) = Some z" and segs: "segs = [] # z"
      by (auto split: if_splits option.splits list.splits)
    have "list_all2 seg_ok r z \<and> x # xs = concat z @ drop (length (concat z)) (x # xs)"
    proof (cases "c x")
      case True
      with False have "rx_match (Star c # r) xs = None" by simp
      from "4.IH"(2) [OF True this z] show ?thesis .
    next
      case F: False
      from "4.IH"(4) [OF F z] show ?thesis .
    qed
    then show ?thesis by (simp add: segs)
  next
    case True
    then have cx: "c x" and "rx_match (Star c # r) xs \<noteq> None" by auto
    then obtain a where Some: "rx_match (Star c # r) xs = Some a" by auto
    from "4.IH"(1) [OF cx Some] have a: "list_all2 seg_ok (Star c # r) a"
      "xs = concat a @ drop (length (concat a)) xs" by auto
    then obtain g gs where ags: "a = g # gs" by (cases a) auto
    with Some cx "4.prems" have segs: "segs = (x # g) # gs" by simp
    from a ags cx show ?thesis by (simp add: segs)
  qed
next
  case (5 c r)
  then show ?case by simp
next
  case (6 c r x xs)
  from "6.prems" have cx: "c x" by (simp split: if_splits)
  with "6.prems" obtain a where Some: "rx_match (Star c # r) xs = Some a"
    by (cases "rx_match (Star c # r) xs") auto
  from "6.IH" [OF cx Some] have a: "list_all2 seg_ok (Star c # r) a"
    "xs = concat a @ drop (length (concat a)) xs" by auto
  then obtain g gs where ags: "a = g # gs" by (cases a) auto
  with Some cx "6.prems" have segs: "segs = (x # g) # gs" by simp
  from a ags cx show ?case by (simp add: segs)
qed

lemma rx_match_star_skip:
  "rx_match r s \<noteq> None \<Longrightarrow> rx_match (Star c # r) s \<noteq> None"
  by (cases s) (auto split: option.splits list.splits)

lemma rx_match_star_cons:
  assumes "c x" and "rx_match (Star c # r) xs \<noteq> None"
  shows "rx_match (Star c # r) (x # xs) \<noteq> None"
proof -
  from assms(2) obtain a where a: "rx_match (Star c # r) xs = Some a" by auto
  from rx_match_sound [OF a] obtain g gs where "a = g # gs" by (cases a) auto
  with a assms(1) show ?thesis by simp
qed

lemma rx_match_star_run:
  "list_all c g \<Longrightarrow> rx_match r rest \<noteq> None \<Longrightarrow> rx_match (Star c # r) (g @ rest) \<noteq> None"
proof (induction g)
  case Nil
  then show ?case using rx_match_star_skip [of r rest c] by simp
next
  case (Cons x g)
  then have "c x" and "rx_match (Star c # r) (g @ rest) \<noteq> None" by simp_all
  then have "rx_match (Star c # r) (x # (g @ rest)) \<noteq> None" by (rule rx_match_star_cons)
  then show ?case by simp
qed

lemma rx_match_plus_run:
  assumes "g \<noteq> []" "list_all c g" "rx_match r rest \<noteq> None"
  shows "rx_match (Plus c # r) (g @ rest) \<noteq> None"
proof -
  from assms(1) obtain x g' where g: "g = x # g'" by (cases g) auto
  with assms(2) have cx: "c x" and "list_all c g'" by simp_all
  from this(2) assms(3) have "rx_match (Star c # r) (g' @ rest) \<noteq> None"
    by (rule rx_match_star_run)
  then obtain a where a: "rx_match (Star c # r) (g' @ rest) = Some a" by auto
  from rx_match_sound [OF a] obtain h hs where "a = h # hs" by (cases a) auto
  with a g cx show ?thesis by simp
qed

lemma rx_match_complete:
  "list_all2 seg_ok p segs \<Longrightarrow> rx_match p (concat segs @ rest) \<noteq> None"
proof (induction p segs rule: list_all2_induct)
  case Nil
  then show ?case by simp
next
  case (Cons i p g segs)
  show ?case
  proof (cases i)
    case (Lit l)
    with Cons.hyps have ok: "ci_eq g l" by simp
    then have "length g = length l" by (rule ci_eq_length)
    with ok Cons.IH show ?thesis
      by (auto simp: Lit ci_prefix_append)
  next
    case (Star c)
    with Cons show ?thesis by (simp add: rx_match_star_run del: rx_match.simps)
  next
    case (Plus c)
    with Cons show ?thesis by (simp add: rx_match_plus_run del: rx_match.simps)
  qed
qed

lemma re_search_sound:
  "re_search p s = Some segs \<Longrightarrow>
   \<exists>pre rest. s = pre @ concat segs @ rest \<and> list_all2 seg_ok p segs"
proof (induction s)
  case Nil
  then show ?case using rx_match_sound [of p "[]" segs] by auto
next
  case (Cons x xs)
  show ?case
  proof (cases "rx_match p (x # xs)")
    case None
    with Cons.prems have "re_search p xs = Some segs" by simp
    from Cons.IH [OF this] obtain pre rest where
      "xs = pre @ concat segs @ rest" "list_all2 seg_ok p segs" by blast
    then have "x # xs = (x # pre) @ concat segs @ rest" by simp
    with \<open>list_all2 seg_ok p segs\<close> show ?thesis by blast
  next
    case (Some a)
    with Cons.prems have a: "a = segs" by simp
    from rx_match_sound [OF Some] a have
      "x # xs = [] @ concat segs @ drop (length (concat segs)) (x # xs)"
      "list_all2 seg_ok p segs" by auto
    then show ?thesis by blast
  qed
qed

lemma re_search_here: "rx_match p s \<noteq> None \<Longrightarrow> re_search p s \<noteq> None"
  by (cases s) auto

lemma re_search_complete:
  "list_all2 seg_ok p segs \<Longrightarrow> re_search p (pre @ concat segs @ rest) \<noteq> None"
proof (induction pre)
  case Nil
  from rx_match_complete [OF Nil, of rest] show ?case
    by (simp add: re_search_here)
next
  case (Cons x pre)
  then show ?case by (auto split: option.splits)
qed

lemma re_search_iff:
  "re_search p s \<noteq> None \<longleftrightarrow>
   (\<exists>pre segs rest. s = pre @ concat segs @ rest \<and> list_all2 seg_ok p segs)"
  using re_search_sound [of p s] re_search_complete [of p] by (metis not_Some_eq)

section \<open>Rule Matcher: the exclusion-statement pattern\<close>

lemma of_char_lower_char:
  "(of_char (lower_char c) :: nat) =
   (if 65 \<le> (of_char c :: nat) \<and> (of_char c :: nat) \<le> 90 then of_char c + 32 else of_char c)"
  by (simp add: lower_char_def Let_def)

lemma not_comma_space_nat:
  "not_comma_space c \<longleftrightarrow>
   (of_char c :: nat) \<noteq> 44 \<and> \<not> ((9 \<le> (of_char c :: nat) \<and> (of_char c :: nat) \<le> 13)
      \<or> (28 \<le> (of_char c :: nat) \<and> (of_char c :: nat) \<le> 32))"
proof -
  have "c = CHR '','' \<longleftrightarrow> (of_char c :: nat) = of_char (CHR '','')"
    by (simp only: of_char_eq_iff)
  then show ?thesis by (simp add: not_comma_space_def is_space_def Let_def)
qed

lemma lower_char_eq_class:
  assumes "lower_char c = lower_char d"
  shows "not_comma_space c = not_comma_space d"
proof -
  from assms have e: "(of_char (lower_char c) :: nat) = of_char (lower_char d)" by simp
  show ?thesis
  proof (cases "(of_char c :: nat) = of_char d")
    case True
    then have "c = d" by (simp only: of_char_eq_iff)
    then show ?thesis by simp
  next
    case False
    with e show ?thesis
      unfolding of_char_lower_char not_comma_space_nat
      by (auto split: if_splits)
  qed
qed

lemma ci_eq_class: "ci_eq a b \<Longrightarrow> list_all not_comma_space a = list_all not_comma_space b"
proof (induction a arbitrary: b)
  case Nil
  then show ?case by (simp add: ci_eq_def)
next
  case (Cons x a)
  then obtain y b' where b: "b = y # b'" by (cases b) (auto simp: ci_eq_def)
  with Cons.prems have "lower_char x = lower_char y" "ci_eq a b'" by (auto simp: ci_eq_def)
  with Cons.IH [of b'] lower_char_eq_class [of x y] show ?case by (simp add: b)
qed

lemma list_all2_colexc:
  "list_all2 seg_ok (colexc_pattern field) segs \<longleftrightarrow>
   (\<exists>kw ws a f' b. segs = [kw, ws, a, f', b] \<and> ci_eq kw ''COLEXC'' \<and> ws \<noteq> [] \<and>
      list_all is_space ws \<and> list_all not_comma_space a \<and> ci_eq f' field \<and>
      list_all not_comma_space b)"
  by (auto simp: colexc_pattern_def list_all2_Cons1)

lemma colexc_found_iff:
  "colexc_found field ctx \<longleftrightarrow>
   (\<exists>pre kw ws a f' b post. ctx = pre @ kw @ ws @ a @ f' @ b @ post \<and>
      ci_eq kw ''COLEXC'' \<and> ws \<noteq> [] \<and> list_all is_space ws \<and>
      list_all not_comma_space a \<and> ci_eq f' field \<and> list_all not_comma_space b)"
  (is "?L \<longleftrightarrow> ?R")
proof
  assume ?L
  then obtain pre segs rest where
    s: "ctx = pre @ concat segs @ rest" "list_all2 seg_ok (colexc_pattern field) segs"
    unfolding colexc_found_def re_search_iff by blast
  from s(2) obtain kw ws a f' b where
    "segs = [kw, ws, a, f', b]" "ci_eq kw ''COLEXC''" "ws \<noteq> []" "list_all is_space ws"
    "list_all not_comma_space a" "ci_eq f' field" "list_all not_comma_space b"
    unfolding list_all2_colexc by blast
  with s(1) have "ctx = pre @ kw @ ws @ a @ f' @ b @ rest" by simp
  with \<open>ci_eq kw ''COLEXC''\<close> \<open>ws \<noteq> []\<close> \<open>list_all is_space ws\<close> \<open>list_all not_comma_space a\<close>
    \<open>ci_eq f' field\<close> \<open>list_all not_comma_space b\<close>
  show ?R by blast
next
  assume ?R
  then obtain pre kw ws a f' b post where
    c: "ctx = pre @ kw @ ws @ a @ f' @ b @ post" and
    ok: "ci_eq kw ''COLEXC''" "ws \<noteq> []" "list_all is_space ws"
    "list_all not_comma_space a" "ci_eq f' field" "list_all not_comma_space b"
    by blast
  from ok have "list_all2 seg_ok (colexc_pattern field) [kw, ws, a, f', b]"
    unfolding list_all2_colexc by blast
  from re_search_complete [OF this, of pre post] c show ?L
    by (simp add: colexc_found_def)
qed

text \<open>
  C3, for a field name that has no comma and no whitespace in it: the field counts as
  present exactly when the context contains the keyword COLEXC (in any case), whitespace,
  then a run of characters that are neither commas nor whitespace and that contains the
  field name, compared ignoring case. So a context containing COLEXC SSN_MASKED satisfies
  a requirement for the field SSN.
\<close>

theorem colexc_found_spec:
  assumes "list_all not_comma_space field"
  shows "(colexc_found field ctx \<longleftrightarrow>
          (\<exists>pre kw ws run post a f' b. ctx = pre @ kw @ ws @ run @ post \<and>
             ci_eq kw ''COLEXC'' \<and> ws \<noteq> [] \<and> list_all is_space ws \<and>
             list_all not_comma_space run \<and> run = a @ f' @ b \<and> ci_eq f' field))
       \<and> colexc_found ''SSN'' (before @ ''COLEXC SSN_MASKED'' @ after)"
proof
  show "colexc_found field ctx \<longleftrightarrow>
          (\<exists>pre kw ws run post a f' b. ctx = pre @ kw @ ws @ run @ post \<and>
             ci_eq kw ''COLEXC'' \<and> ws \<noteq> [] \<and> list_all is_space ws \<and>
             list_all not_comma_space run \<and> run = a @ f' @ b \<and> ci_eq f' field)"
    (is "?L \<longleftrightarrow> ?R")
  proof
    assume ?L
    then obtain pre kw ws a f' b post where
      c: "ctx = pre @ kw @ ws @ a @ f' @ b @ post" and
      ok: "ci_eq kw ''COLEXC''" "ws \<noteq> []" "list_all is_space ws"
      "list_all not_comma_space a" "ci_eq f' field" "list_all not_comma_space b"
      unfolding colexc_found_iff by blast
    from ci_eq_class [OF ok(5)] assms have "list_all not_comma_space f'" by simp
    with ok have "list_all not_comma_space (a @ f' @ b)" by simp
    moreover from c have "ctx = pre @ kw @ ws @ (a @ f' @ b) @ post" by simp
    ultimately show ?R using ok by blast
  next
    assume ?R
    then obtain pre kw ws run post a f' b where
      c: "ctx = pre @ kw @ ws @ run @ post" and
      ok: "ci_eq kw ''COLEXC''" "ws \<noteq> []" "list_all is_space ws"
      "list_all not_comma_space run" "run = a @ f' @ b" "ci_eq f' field"
      by blast
    from ok(4,5) have "list_all not_comma_space a" "list_all not_comma_space b" by simp_all
    moreover from c ok(5) have "ctx = pre @ kw @ ws @ a @ f' @ b @ post" by simp
    ultimately show ?L unfolding colexc_found_iff using ok by blast
  qed
next
  have "ci_eq ''COLEXC'' ''COLEXC''" "list_all is_space '' ''" "ci_eq ''SSN'' ''SSN''"
    "list_all not_comma_space ''_MASKED''"
    by code_simp+
  then have "list_all2 seg_ok (colexc_pattern ''SSN'') [''COLEXC'', '' '', [], ''SSN'', ''_MASKED'']"
    unfolding list_all2_colexc by simp
  from re_search_complete [OF this, of before after]
  show "colexc_found ''SSN'' (before @ ''COLEXC SSN_MASKED'' @ after)"
    by (simp add: colexc_found_def)
qed

theorem colexc_found_spec_witness:
  "list_all not_comma_space ''SSN''
   \<and> colexc_found ''SSN'' ''TABLE HR.ORDERS, colexc (ssn_masked, DOB)''
   \<and> (\<exists>pre kw ws run post a f' b.
         ''TABLE HR.ORDERS, colexc (ssn_masked, DOB)'' = pre @ kw @ ws @ run @ post \<and>
         ci_eq kw ''COLEXC'' \<and> ws \<noteq> [] \<and> list_all is_space ws \<and>
         list_all not_comma_space run \<and> run = a @ f' @ b \<and> ci_eq f' ''SSN'')
   \<and> \<not> colexc_found ''DOB'' ''TABLE HR.ORDERS, colexc (ssn_masked, DOB)''"
proof -
  have h: "list_all not_comma_space ''SSN''" by code_simp
  have f: "colexc_found ''SSN'' ''TABLE HR.ORDERS, colexc (ssn_masked, DOB)''" by code_simp
  have g: "\<not> colexc_found ''DOB'' ''TABLE HR.ORDERS, colexc (ssn_masked, DOB)''" by code_simp
  from colexc_found_spec [OF h, of "''TABLE HR.ORDERS, colexc (ssn_masked, DOB)''"] f g h
  show ?thesis by blast
qed

text \<open>
  C3, as stated for every field, fails: the field name FIRST NAME is found after COLEXC
  although no run of characters without whitespace can contain it. The literal field
  name is matched as it is, between the two runs.
\<close>

theorem colexc_found_field_with_space:
  "colexc_found ''FIRST NAME'' ''TABLE HR.PEOPLE, COLEXC FIRST NAME''
   \<and> \<not> list_all not_comma_space ''FIRST NAME''"
  by code_simp

section \<open>Rule Matcher: table names and validation\<close>

lemma split_sep_not_Nil: "split_sep c s \<noteq> []"
  by (induction s) (auto split: list.splits)

lemma split_sep_no_sep: "c \<notin> set s \<Longrightarrow> split_sep c s = [s]"
  by (induction s) auto

lemma split_sep_has_sep: "c \<in> set s \<Longrightarrow> \<exists>w v vs. split_sep c s = w # v # vs"
proof (induction s)
  case Nil
  then show ?case by simp
next
  case (Cons x s)
  show ?case
  proof (cases "x = c")
    case True
    obtain v vs where "split_sep c s = v # vs"
      using split_sep_not_Nil [of c s] by (cases "split_sep c s") auto
    with True show ?thesis by simp
  next
    case False
    with Cons.prems have "c \<in> set s" by simp
    from Cons.IH [OF this] obtain w v vs where "split_sep c s = w # v # vs" by blast
    with False show ?thesis by simp
  qed
qed

lemma last_split_sep: "c \<notin> set b \<Longrightarrow> last (split_sep c (a @ c # b)) = b"
proof (induction a)
  case Nil
  then show ?case by (simp add: split_sep_no_sep)
next
  case (Cons x a)
  show ?case
  proof (cases "x = c")
    case True
    with Cons show ?thesis by (simp add: split_sep_not_Nil)
  next
    case False
    have "c \<in> set (a @ c # b)" by simp
    from split_sep_has_sep [OF this] obtain w v vs where
      e: "split_sep c (a @ c # b) = w # v # vs" by blast
    with Cons False show ?thesis by simp
  qed
qed

text \<open>
  C4: when the statement yields a captured identifier, the table name is the identifier
  in upper case if it has no dot, and otherwise the upper-cased text after its final dot
  (which exists and is unique); TABLE SCHEMA.ORDERS yields ORDERS.
\<close>

theorem extract_table_name_after_final_dot:
  assumes "table_ref stmt = Some ident"
  shows "(CHR ''.'' \<notin> set ident \<longrightarrow> extract_table_name stmt = upper ident)
       \<and> (CHR ''.'' \<in> set ident \<longrightarrow> (\<exists>a b. ident = a @ CHR ''.'' # b \<and> CHR ''.'' \<notin> set b))
       \<and> (\<forall>a b. ident = a @ CHR ''.'' # b \<and> CHR ''.'' \<notin> set b \<longrightarrow>
            extract_table_name stmt = upper b)"
proof (intro conjI impI allI)
  assume "CHR ''.'' \<notin> set ident"
  with assms show "extract_table_name stmt = upper ident"
    by (simp add: extract_table_name_def)
next
  assume "CHR ''.'' \<in> set ident"
  then show "\<exists>a b. ident = a @ CHR ''.'' # b \<and> CHR ''.'' \<notin> set b"
    by (rule split_list_last)
next
  fix a b
  assume "ident = a @ CHR ''.'' # b \<and> CHR ''.'' \<notin> set b"
  with assms last_split_sep [of "CHR ''.''" b a]
  show "extract_table_name stmt = upper b"
    by (simp add: extract_table_name_def)
qed

theorem extract_table_name_after_final_dot_witness:
  "table_ref ''TABLE SCHEMA.ORDERS'' = Some ''SCHEMA.ORDERS''
   \<and> extract_table_name ''TABLE SCHEMA.ORDERS'' = ''ORDERS''
   \<and> table_ref ''table hr.app.Orders_2 , colexc x'' = Some ''hr.app.Orders_2''
   \<and> extract_table_name ''table hr.app.Orders_2 , colexc x'' = ''ORDERS_2''
   \<and> table_ref ''TABLE orders;'' = Some ''orders''
   \<and> extract_table_name ''TABLE orders;'' = ''ORDERS''"
proof -
  have h1: "table_ref ''TABLE SCHEMA.ORDERS'' = Some ''SCHEMA.ORDERS''" by code_simp
  have h2: "table_ref ''table hr.app.Orders_2 , colexc x'' = Some ''hr.app.Orders_2''"
    by code_simp
  have h3: "table_ref ''TABLE orders;'' = Some ''orders''" by code_simp
  have u: "upper ''ORDERS'' = ''ORDERS''" "upper ''Orders_2'' = ''ORDERS_2''"
    "upper ''orders'' = ''ORDERS''" by code_simp+
  have d1: "''SCHEMA.ORDERS'' = ''SCHEMA'' @ CHR ''.'' # ''ORDERS'' \<and> CHR ''.'' \<notin> set ''ORDERS''"
    by simp
  have d2: "''hr.app.Orders_2'' = ''hr.app'' @ CHR ''.'' # ''Orders_2''
            \<and> CHR ''.'' \<notin> set ''Orders_2''"
    by simp
  have d3: "CHR ''.'' \<notin> set ''orders''" by simp
  from extract_table_name_after_final_dot [OF h1] d1
  have "extract_table_name ''TABLE SCHEMA.ORDERS'' = upper ''ORDERS''" by blast
  moreover from extract_table_name_after_final_dot [OF h2] d2
  have "extract_table_name ''table hr.app.Orders_2 , colexc x'' = upper ''Orders_2''" by blast
  moreover from extract_table_name_after_final_dot [OF h3] d3
  have "extract_table_name ''TABLE orders;'' = upper ''orders''" by blast
  ultimately show ?thesis using h1 h2 h3 u by simp
qed

lemma fold_collect:
  "fold (\<lambda>x acc. if P x then acc @ [x] else acc) xs acc = acc @ filter P xs"
  by (induction xs arbitrary: acc) auto

lemma missing_colexc_filter:
  "missing_colexc required_fields full_config =
   filter (\<lambda>f. \<not> colexc_found f full_config) required_fields"
  by (simp add: missing_colexc_def fold_collect)

lemma filter_not_empty_iff: "filter (\<lambda>f. \<not> P f) xs = [] \<longleftrightarrow> list_all P xs"
  by (induction xs) auto

lemma validate_step_errors:
  "validate_step exclude_fields tc errors = errors @ declaration_errors exclude_fields tc"
  by (cases tc)
     (auto simp: validate_step_def declaration_errors_def missing_colexc_filter
        filter_not_empty_iff Let_def split: option.splits)

lemma validate_fold:
  "fold (validate_step exclude_fields) tcs errors =
   errors @ concat (map (declaration_errors exclude_fields) tcs)"
  by (induction tcs arbitrary: errors) (simp_all add: validate_step_errors)

lemma validate_concat:
  "validate_colexc_statements exclude_fields tcs =
   concat (map (declaration_errors exclude_fields) tcs)"
  by (simp add: validate_colexc_statements_def validate_fold)

lemma validate_append:
  "validate_colexc_statements exclude_fields (before @ tc # after) =
   validate_colexc_statements exclude_fields before @ declaration_errors exclude_fields tc
     @ validate_colexc_statements exclude_fields after"
  by (simp add: validate_concat)

text \<open>
  C1, for declarations with a non-empty extracted table name: the errors of a run are the
  errors of its declarations, in order. A declaration whose table is a key of the map and
  has at least one required field without an exclusion statement in its context gives
  exactly one error, which lists exactly those fields; one whose fields are all found, or
  whose table is not a key, gives none. A declaration whose extracted table name is empty
  gives one could-not-extract error instead, whatever the map holds. With the map
  ORDERS to SSN, DOB and a context holding TABLE ORDERS and COLEXC SSN, the only error
  names DOB.
\<close>

theorem validate_errors_per_declaration:
  "validate_colexc_statements exclude_fields table_configs =
     concat (map (declaration_errors exclude_fields) table_configs)
   \<and> (extract_table_name stmt = ''ORDERS'' \<and> colexc_found ''SSN'' ctx \<and>
        \<not> colexc_found ''DOB'' ctx \<longrightarrow>
        validate_colexc_statements (Map.empty(''ORDERS'' \<mapsto> [''SSN'', ''DOB'']))
          [(name, stmt, ctx)]
        = [MissingColexc name ''ORDERS'' [''DOB'']])"
  by (simp add: validate_concat declaration_errors_def)

theorem validate_errors_per_declaration_witness:
  "extract_table_name ''TABLE ORDERS'' = ''ORDERS''
   \<and> colexc_found ''SSN'' (''TABLE ORDERS'' @ newline # ''COLEXC SSN'')
   \<and> \<not> colexc_found ''DOB'' (''TABLE ORDERS'' @ newline # ''COLEXC SSN'')
   \<and> validate_colexc_statements (Map.empty(''ORDERS'' \<mapsto> [''SSN'', ''DOB'']))
       [(JStr ''EXT1'', ''TABLE ORDERS'', ''TABLE ORDERS'' @ newline # ''COLEXC SSN'')]
     = [MissingColexc (JStr ''EXT1'') ''ORDERS'' [''DOB'']]
   \<and> validate_colexc_statements (Map.empty(''ORDERS'' \<mapsto> [''SSN'', ''DOB'']))
       [(JStr ''EXT1'', ''TABLE ORDERS'', ''TABLE ORDERS'' @ newline # ''COLEXC SSN''),
        (JStr ''EXT2'', ''TABLE HR.EMP'', ''TABLE HR.EMP'')]
     = concat (map (declaration_errors (Map.empty(''ORDERS'' \<mapsto> [''SSN'', ''DOB''])))
       [(JStr ''EXT1'', ''TABLE ORDERS'', ''TABLE ORDERS'' @ newline # ''COLEXC SSN''),
        (JStr ''EXT2'', ''TABLE HR.EMP'', ''TABLE HR.EMP'')])"
proof -
  have h: "extract_table_name ''TABLE ORDERS'' = ''ORDERS''
      \<and> colexc_found ''SSN'' (''TABLE ORDERS'' @ newline # ''COLEXC SSN'')
      \<and> \<not> colexc_found ''DOB'' (''TABLE ORDERS'' @ newline # ''COLEXC SSN'')"
    by code_simp
  from validate_errors_per_declaration
         [where exclude_fields = "Map.empty(''ORDERS'' \<mapsto> [''SSN'', ''DOB''])"
            and table_configs =
              "[(JStr ''EXT1'', ''TABLE ORDERS'', ''TABLE ORDERS'' @ newline # ''COLEXC SSN''),
                (JStr ''EXT2'', ''TABLE HR.EMP'', ''TABLE HR.EMP'')]"
            and stmt = "''TABLE ORDERS''"
            and ctx = "''TABLE ORDERS'' @ newline # ''COLEXC SSN''"
            and name = "JStr ''EXT1''"] h
  show ?thesis by blast
qed

text \<open>
  C1, as stated for every declaration, fails where the extracted table name is empty: the
  declaration TABLE HR.* gives an error although its table name is no key of the (empty)
  map, and the declaration TABLE HR. gives a could-not-extract error, not one listing SSN,
  although its extracted name, the empty string, is a key whose field SSN is not excluded.
\<close>

theorem validate_error_without_requirement:
  "validate_colexc_statements Map.empty [(JStr ''EXT1'', ''TABLE HR.*'', ''TABLE HR.*'')]
     = [CouldNotExtract (JStr ''EXT1'') ''TABLE HR.*'']
   \<and> extract_table_name ''TABLE HR.*'' = []
   \<and> validate_colexc_statements (Map.empty([] \<mapsto> [''SSN'']))
        [(JStr ''EXT1'', ''TABLE HR.'', ''TABLE HR.'')]
     = [CouldNotExtract (JStr ''EXT1'') ''TABLE HR.'']
   \<and> extract_table_name ''TABLE HR.'' = []
   \<and> \<not> colexc_found ''SSN'' ''TABLE HR.''"
  by code_simp

text \<open>
  C6: a declaration whose statement yields no captured identifier adds exactly one
  could-not-extract error, whatever the exclusion map and its context hold, and the
  declarations before and after it are validated as they would be without it. The
  function is total: it returns the list of errors for every input.
\<close>

theorem could_not_extract_recorded:
  assumes "table_ref stmt = None"
  shows "validate_colexc_statements exclude_fields (before @ (name, stmt, ctx) # after) =
         validate_colexc_statements exclude_fields before
           @ CouldNotExtract name stmt # validate_colexc_statements exclude_fields after"
  using assms
  by (simp add: validate_append declaration_errors_def extract_table_name_def)

theorem could_not_extract_recorded_witness:
  "table_ref ''TABLE'' = None
   \<and> validate_colexc_statements (Map.empty(''ORDERS'' \<mapsto> [''SSN'']))
       ([] @ (JStr ''EXT1'', ''TABLE'', ''TABLE'')
           # [(JStr ''EXT2'', ''TABLE ORDERS'', ''TABLE ORDERS'')])
     = [CouldNotExtract (JStr ''EXT1'') ''TABLE'',
        MissingColexc (JStr ''EXT2'') ''ORDERS'' [''SSN'']]"
proof -
  have h: "table_ref ''TABLE'' = None" by code_simp
  have a: "validate_colexc_statements (Map.empty(''ORDERS'' \<mapsto> [''SSN'']))
             [(JStr ''EXT2'', ''TABLE ORDERS'', ''TABLE ORDERS'')]
           = [MissingColexc (JStr ''EXT2'') ''ORDERS'' [''SSN'']]"
    by code_simp
  have b: "validate_colexc_statements (Map.empty(''ORDERS'' \<mapsto> [''SSN''])) [] = []"
    by code_simp
  from could_not_extract_recorded [OF h, of "Map.empty(''ORDERS'' \<mapsto> [''SSN''])" "[]"
         "JStr ''EXT1''" "''TABLE''" "[(JStr ''EXT2'', ''TABLE ORDERS'', ''TABLE ORDERS'')]"]
    h a b
  show ?thesis by simp
qed

text \<open>
  C10: when the captured identifier ends in a dot, the extracted table name is empty and
  the declaration adds exactly one could-not-extract error, whatever the exclusion map
  holds, also under the empty key.
\<close>

theorem trailing_dot_not_looked_up:
  assumes "table_ref stmt = Some (a @ ''.'')"
  shows "extract_table_name stmt = []
       \<and> validate_colexc_statements exclude_fields (before @ (name, stmt, ctx) # after) =
           validate_colexc_statements exclude_fields before
             @ CouldNotExtract name stmt # validate_colexc_statements exclude_fields after"
proof -
  have "last (split_sep (CHR ''.'') (a @ CHR ''.'' # [])) = []"
    by (rule last_split_sep) simp
  with assms have e: "extract_table_name stmt = []"
    by (simp add: extract_table_name_def upper_def)
  then show ?thesis
    by (simp add: validate_append declaration_errors_def)
qed

theorem trailing_dot_not_looked_up_witness:
  "table_ref ''TABLE SCHEMA.'' = Some (''SCHEMA'' @ ''.'')
   \<and> extract_table_name ''TABLE SCHEMA.'' = []
   \<and> (Map.empty([] \<mapsto> [''SSN''])) [] = Some [''SSN'']
   \<and> validate_colexc_statements (Map.empty([] \<mapsto> [''SSN'']))
        ([] @ (JStr ''EXT1'', ''TABLE SCHEMA.'', ''TABLE SCHEMA.'') # [])
      = [CouldNotExtract (JStr ''EXT1'') ''TABLE SCHEMA.'']"
proof -
  have h: "table_ref ''TABLE SCHEMA.'' = Some (''SCHEMA'' @ ''.'')" by code_simp
  have b: "validate_colexc_statements (Map.empty([] \<mapsto> [''SSN''])) [] = []"
    by code_simp
  from trailing_dot_not_looked_up [OF h, of "Map.empty([] \<mapsto> [''SSN''])" "[]"
         "JStr ''EXT1''" "''TABLE SCHEMA.''" "[]"] h b
  show ?thesis by simp
qed

section \<open>Statement Extractor: the table-declaration pattern\<close>

lemma finditer_sound:
  "m \<in> set (finditer p s) \<Longrightarrow>
   \<exists>pre post segs. s = pre @ m @ post \<and> rx_match p (m @ post) = Some segs \<and> concat segs = m"
proof (induction p s rule: finditer.induct)
  case (1 p)
  then obtain segs where r: "rx_match p [] = Some segs" and m: "m = concat segs"
    by (cases "rx_match p []") auto
  from rx_match_sound [OF r] have "concat segs = []" by simp
  with r m have "[] = [] @ m @ [] \<and> rx_match p (m @ []) = Some segs \<and> concat segs = m"
    by simp
  then show ?case by blast
next
  case (2 p x xs)
  show ?case
  proof (cases "rx_match p (x # xs)")
    case None
    with "2.prems" have "m \<in> set (finditer p xs)" by simp
    from "2.IH"(1) [OF None this] obtain pre post segs where
      "xs = pre @ m @ post" "rx_match p (m @ post) = Some segs" "concat segs = m" by blast
    then have "x # xs = (x # pre) @ m @ post \<and> rx_match p (m @ post) = Some segs
               \<and> concat segs = m"
      by simp
    then show ?thesis by blast
  next
    case (Some segs)
    from rx_match_sound [OF Some]
    have split: "x # xs = concat segs @ drop (length (concat segs)) (x # xs)" by simp
    from "2.prems" Some consider "m = concat segs"
      | "m \<in> set (finditer p (drop (length (concat segs) - 1) xs))" by auto
    then show ?thesis
    proof cases
      case 1
      with split Some have "x # xs = [] @ m @ drop (length m) (x # xs)
          \<and> rx_match p (m @ drop (length m) (x # xs)) = Some segs \<and> concat segs = m"
        by simp
      then show ?thesis by blast
    next
      case 2
      from "2.IH"(2) [OF Some 2] obtain pre post segs' where
        d: "drop (length (concat segs) - 1) xs = pre @ m @ post"
        and r: "rx_match p (m @ post) = Some segs'" "concat segs' = m" by blast
      have "xs = take (length (concat segs) - 1) xs @ drop (length (concat segs) - 1) xs"
        by simp
      with d have "x # xs = (x # take (length (concat segs) - 1) xs @ pre) @ m @ post"
        by simp
      with r show ?thesis by blast
    qed
  qed
qed

lemma finditer_not_Nil: "re_search p s \<noteq> None \<Longrightarrow> finditer p s \<noteq> []"
  by (induction s) (auto split: option.splits)

lemma rx_match_single_star: "rx_match [Star c] s \<noteq> None"
  using rx_match_star_skip [of "[]" s c] by simp

lemma rx_match_final_star:
  "rx_match p s = Some segs \<Longrightarrow> p \<noteq> [] \<Longrightarrow> last p = Star c \<Longrightarrow>
   drop (length (concat segs)) s = [] \<or> \<not> c (hd (drop (length (concat segs)) s))"
proof (induction p s arbitrary: segs rule: rx_match.induct)
  case (1 s)
  then show ?case by simp
next
  case (2 l r s)
  from "2.prems"(1) have pre: "ci_prefix l s" by (simp split: if_splits)
  with "2.prems"(1) obtain gs where gs: "rx_match r (drop (length l) s) = Some gs"
    and segs: "segs = take (length l) s # gs" by auto
  from "2.prems"(2,3) have r: "r \<noteq> []" "last r = Star c" by (auto split: if_splits)
  from pre have len: "length l \<le> length s" by (simp add: ci_prefix_def)
  have "drop (length (concat segs)) s = drop (length (concat gs)) (drop (length l) s)"
    using len by (simp add: segs min_absorb2 add.commute)
  with "2.IH" [OF pre gs r] show ?case by simp
next
  case (3 c' r)
  then show ?case by simp
next
  case (4 c' r x xs)
  show ?case
  proof (cases "c' x \<and> rx_match (Star c' # r) xs \<noteq> None")
    case True
    then have cx: "c' x" and "rx_match (Star c' # r) xs \<noteq> None" by auto
    then obtain a where Some: "rx_match (Star c' # r) xs = Some a" by auto
    from rx_match_sound [OF Some] obtain g gs where ags: "a = g # gs" by (cases a) auto
    with Some cx "4.prems"(1) have segs: "segs = (x # g) # gs" by simp
    from "4.IH"(1) [OF cx Some "4.prems"(2,3)] show ?thesis by (simp add: segs ags)
  next
    case False
    with "4.prems"(1) obtain z where z: "rx_match r (x # xs) = Some z" and segs: "segs = [] # z"
      by (auto split: if_splits option.splits list.splits)
    show ?thesis
    proof (cases "r = []")
      case True
      with "4.prems"(3) have cc: "c' = c" by simp
      from True z have "z = []" by simp
      from False True rx_match_single_star [of c' xs] have "\<not> c' x" by auto
      with cc show ?thesis by (simp add: segs \<open>z = []\<close>)
    next
      case F: False
      with "4.prems"(3) have lr: "last r = Star c" by simp
      have "drop (length (concat z)) (x # xs) = [] \<or>
            \<not> c (hd (drop (length (concat z)) (x # xs)))"
      proof (cases "c' x")
        case True
        with False have "rx_match (Star c' # r) xs = None" by simp
        from "4.IH"(2) [OF True this z F lr] show ?thesis .
      next
        case G: False
        from "4.IH"(4) [OF G z F lr] show ?thesis .
      qed
      then show ?thesis by (simp add: segs)
    qed
  qed
next
  case (5 c' r)
  then show ?case by simp
next
  case (6 c' r x xs)
  from "6.prems"(1) have cx: "c' x" by (simp split: if_splits)
  with "6.prems"(1) obtain a where Some: "rx_match (Star c' # r) xs = Some a"
    by (cases "rx_match (Star c' # r) xs") auto
  from rx_match_sound [OF Some] obtain g gs where ags: "a = g # gs" by (cases a) auto
  with Some cx "6.prems"(1) have segs: "segs = (x # g) # gs" by simp
  from "6.prems"(2,3) have "Star c' # r \<noteq> []" "last (Star c' # r) = Star c"
    by (auto split: if_splits)
  from "6.IH" [OF cx Some this] show ?case by (simp add: segs ags)
qed

lemma list_all2_table_pattern:
  "list_all2 seg_ok table_pattern segs \<longleftrightarrow>
   (\<exists>kw ws ident rest. segs = [kw, ws, ident, rest] \<and> ci_eq kw ''TABLE'' \<and> ws \<noteq> [] \<and>
      list_all is_space ws \<and> ident \<noteq> [] \<and> list_all table_stmt_char ident \<and>
      list_all not_newline rest)"
  by (auto simp: table_pattern_def list_all2_Cons1)

text \<open>
  C5, with the asterisk the pattern also admits: every text matched as a table declaration
  is the keyword TABLE in any letter case, whitespace, a non-empty run of letters, digits,
  underscores, dots and asterisks, and then the rest of the line, up to the next line feed
  or the end of the string. A string that holds such a keyword, whitespace and run at any
  place, not only at the start of a line, yields at least one match.
\<close>

theorem table_statement_shape:
  "(m \<in> set (finditer table_pattern s) \<longrightarrow>
      (\<exists>pre post kw ws ident rest. s = pre @ m @ post \<and> m = kw @ ws @ ident @ rest \<and>
         ci_eq kw ''TABLE'' \<and> ws \<noteq> [] \<and> list_all is_space ws \<and>
         ident \<noteq> [] \<and> list_all table_stmt_char ident \<and>
         list_all not_newline rest \<and> (post = [] \<or> hd post = newline)))
   \<and> (ci_eq kw' ''TABLE'' \<and> ws' \<noteq> [] \<and> list_all is_space ws' \<and>
        ident' \<noteq> [] \<and> list_all table_stmt_char ident' \<longrightarrow>
        finditer table_pattern (before @ kw' @ ws' @ ident' @ after) \<noteq> [])"
proof (intro conjI impI)
  assume "m \<in> set (finditer table_pattern s)"
  from finditer_sound [OF this] obtain pre post segs where
    s: "s = pre @ m @ post" and r: "rx_match table_pattern (m @ post) = Some segs"
    and c: "concat segs = m" by blast
  from rx_match_sound [OF r] obtain kw ws ident rest where
    segs: "segs = [kw, ws, ident, rest]" and ok: "ci_eq kw ''TABLE''" "ws \<noteq> []"
    "list_all is_space ws" "ident \<noteq> []" "list_all table_stmt_char ident"
    "list_all not_newline rest"
    unfolding list_all2_table_pattern by blast
  have "table_pattern \<noteq> []" "last table_pattern = Star not_newline"
    by (simp_all add: table_pattern_def)
  from rx_match_final_star [OF r this] c
  have "post = [] \<or> \<not> not_newline (hd post)" by simp
  then have "post = [] \<or> hd post = newline" by (simp add: not_newline_def)
  moreover from c segs have "m = kw @ ws @ ident @ rest" by simp
  ultimately show "\<exists>pre post kw ws ident rest. s = pre @ m @ post \<and> m = kw @ ws @ ident @ rest \<and>
         ci_eq kw ''TABLE'' \<and> ws \<noteq> [] \<and> list_all is_space ws \<and>
         ident \<noteq> [] \<and> list_all table_stmt_char ident \<and>
         list_all not_newline rest \<and> (post = [] \<or> hd post = newline)"
    using s ok by blast
next
  assume "ci_eq kw' ''TABLE'' \<and> ws' \<noteq> [] \<and> list_all is_space ws' \<and>
        ident' \<noteq> [] \<and> list_all table_stmt_char ident'"
  then have "list_all2 seg_ok table_pattern [kw', ws', ident', []]"
    unfolding list_all2_table_pattern by simp
  from re_search_complete [OF this, of before after]
  have "re_search table_pattern (before @ kw' @ ws' @ ident' @ after) \<noteq> None" by simp
  then show "finditer table_pattern (before @ kw' @ ws' @ ident' @ after) \<noteq> []"
    by (rule finditer_not_Nil)
qed

theorem table_statement_shape_witness:
  "''table a.* y'' \<in> set (finditer table_pattern (''x table a.* y'' @ newline # ''z''))
   \<and> (\<exists>pre post kw ws ident rest.
         ''x table a.* y'' @ newline # ''z'' = pre @ ''table a.* y'' @ post \<and>
         ''table a.* y'' = kw @ ws @ ident @ rest \<and>
         ci_eq kw ''TABLE'' \<and> ws \<noteq> [] \<and> list_all is_space ws \<and>
         ident \<noteq> [] \<and> list_all table_stmt_char ident \<and>
         list_all not_newline rest \<and> (post = [] \<or> hd post = newline))
   \<and> (ci_eq ''tAbLe'' ''TABLE'' \<and> '' '' \<noteq> [] \<and> list_all is_space '' '' \<and>
        ''hr.orders'' \<noteq> [] \<and> list_all table_stmt_char ''hr.orders'')
   \<and> finditer table_pattern (''-- '' @ ''tAbLe'' @ '' '' @ ''hr.orders'' @ '', colexc ssn'') \<noteq> []"
proof -
  have f: "finditer table_pattern (''x table a.* y'' @ newline # ''z'') = [''table a.* y'']"
    by code_simp
  then have m: "''table a.* y'' \<in> set (finditer table_pattern (''x table a.* y'' @ newline # ''z''))"
    by simp
  have h: "ci_eq ''tAbLe'' ''TABLE'' \<and> '' '' \<noteq> [] \<and> list_all is_space '' '' \<and>
        ''hr.orders'' \<noteq> [] \<and> list_all table_stmt_char ''hr.orders''"
    by code_simp
  from table_statement_shape [where m = "''table a.* y''"
      and s = "''x table a.* y'' @ newline # ''z''" and kw' = "''tAbLe''" and ws' = "'' ''"
      and ident' = "''hr.orders''" and before = "''-- ''" and after = "'', colexc ssn''"] m h
  show ?thesis by blast
qed

text \<open>
  C5, as stated, fails: TABLE * is matched as a table declaration, and what follows the
  keyword and the whitespace is an asterisk, which is neither a letter, a digit, an
  underscore nor a dot (and not whitespace), so no such identifier follows.
\<close>

theorem table_statement_asterisk:
  "finditer table_pattern ''TABLE *'' = [''TABLE *'']
   \<and> ''TABLE *'' = ''TABLE'' @ '' '' @ ''*''
   \<and> \<not> is_space (CHR ''*'') \<and> \<not> table_ref_char (CHR ''*'')"
  by code_simp

section \<open>Statement Extractor: the walk over the document\<close>

lemma concat_map_concat:
  "concat (map f (concat (map g xs))) = concat (map (\<lambda>x. concat (map f (g x))) xs)"
  by (induction xs) simp_all

lemma declarations_under_simps:
  "declarations_under nm (JStr s) = declarations_in nm s"
  "declarations_under nm (JArr xs) = concat (map (declarations_under nm) xs)"
  "declarations_under nm (JObj kvs) = concat (map (\<lambda>kv. declarations_under nm (snd kv)) kvs)"
  "declarations_under nm JNull = []"
  "declarations_under nm (JBool b) = []"
  "declarations_under nm (JInt i) = []"
  "declarations_under nm (JFloat w) = []"
proof -
  have e: "declarations_under nm = (\<lambda>cfg. concat (map (declarations_in nm) (strings_under cfg)))"
    by (rule ext) (simp add: declarations_under_def)
  show "declarations_under nm (JStr s) = declarations_in nm s"
    "declarations_under nm (JArr xs) = concat (map (declarations_under nm) xs)"
    "declarations_under nm (JObj kvs) = concat (map (\<lambda>kv. declarations_under nm (snd kv)) kvs)"
    "declarations_under nm JNull = []"
    "declarations_under nm (JBool b) = []"
    "declarations_under nm (JInt i) = []"
    "declarations_under nm (JFloat w) = []"
    by (simp_all add: e concat_map_concat)
qed

lemma fold_max_upper: "(x::nat) \<in> set ys \<Longrightarrow> x \<le> fold max ys m"
proof (induction ys arbitrary: m)
  case Nil
  then show ?case by simp
next
  case (Cons y ys)
  have mono: "m \<le> fold max ys m" for m :: nat
    by (induction ys arbitrary: m) (auto intro: le_trans [OF max.cobounded2])
  show ?case
  proof (cases "x = y")
    case True
    have "x \<le> max y m" using True by simp
    also have "\<dots> \<le> fold max ys (max y m)" by (rule mono)
    finally show ?thesis by simp
  next
    case False
    with Cons.prems have "x \<in> set ys" by simp
    from Cons.IH [OF this] show ?thesis by simp
  qed
qed

text \<open>A loop over items that each append their declarations appends them all, in order.\<close>

lemma fold_walk:
  assumes "\<And>x acc c. x \<in> set xs \<Longrightarrow> \<exists>c'. f x (acc, c) = Inr (acc @ g x, c')"
  shows "\<exists>c'. fold (\<lambda>x r. case r of Inl e \<Rightarrow> Inl e | Inr st \<Rightarrow> f x st) xs
               (Inr (acc, c) :: py_exn + table_config list \<times> bool)
             = Inr (acc @ concat (map g xs), c')"
  using assms
proof (induction xs arbitrary: acc c)
  case Nil
  then show ?case by simp
next
  case (Cons x xs)
  from Cons.prems [of x acc c] obtain c1 where s: "f x (acc, c) = Inr (acc @ g x, c1)"
    by auto
  have "\<exists>c'. fold (\<lambda>x r. case r of Inl e \<Rightarrow> Inl e | Inr st \<Rightarrow> f x st) xs
               (Inr (acc @ g x, c1)) = Inr ((acc @ g x) @ concat (map g xs), c')"
    by (rule Cons.IH) (simp add: Cons.prems)
  with s show ?case by simp
qed

text \<open>Within the recursion limit the walk returns the declarations of every string under
  the value, after those it was given.\<close>

lemma find_table_statements_acc:
  assumes "re_frames True \<le> k" and "re_frames False \<le> k"
  shows "nesting_depth j + k \<le> frames \<Longrightarrow>
         \<exists>c'. find_table_statements re_frames frames nm j (acc, c)
                = Inr (acc @ declarations_under nm j, c')"
proof (induction j arbitrary: frames acc c)
  case (JStr s)
  from assms have "re_frames c \<le> k" by (cases c) simp_all
  with JStr have "frames \<noteq> 0" "\<not> frames - 1 < re_frames c" by simp_all
  then show ?case
    by (auto simp: declarations_under_simps declarations_in_def)
next
  case (JArr xs)
  from JArr.prems have pos: "frames \<noteq> 0" by simp
  have "\<exists>c'. fold (\<lambda>x r. case r of Inl e \<Rightarrow> Inl e
                 | Inr st \<Rightarrow> find_table_statements re_frames (frames - 1) nm x st) xs
               (Inr (acc, c)) = Inr (acc @ concat (map (declarations_under nm) xs), c')"
  proof (rule fold_walk)
    fix x acc c assume x: "x \<in> set xs"
    then have "nesting_depth x \<le> fold max (map nesting_depth xs) 0"
      by (intro fold_max_upper) simp
    with JArr.prems have "nesting_depth x + k \<le> frames - 1" by simp
    with x show "\<exists>c'. find_table_statements re_frames (frames - 1) nm x (acc, c)
                   = Inr (acc @ declarations_under nm x, c')"
      by (rule JArr.IH)
  qed
  then obtain c' where f: "fold (\<lambda>x r. case r of Inl e \<Rightarrow> Inl e
                 | Inr st \<Rightarrow> find_table_statements re_frames (frames - 1) nm x st) xs
               (Inr (acc, c)) = Inr (acc @ concat (map (declarations_under nm) xs), c')"
    by blast
  have step: "find_table_statements re_frames frames nm (JArr xs) (acc, c) =
        fold (\<lambda>x r. case r of Inl e \<Rightarrow> Inl e
                 | Inr st \<Rightarrow> find_table_statements re_frames (frames - 1) nm x st) xs
               (Inr (acc, c))"
    by (simp only: find_table_statements.simps pos if_False)
  have "find_table_statements re_frames frames nm (JArr xs) (acc, c)
        = Inr (acc @ declarations_under nm (JArr xs), c')"
    unfolding step declarations_under_simps by (rule f)
  then show ?case by blast
next
  case (JObj kvs)
  from JObj.prems have pos: "frames \<noteq> 0" by simp
  have "\<exists>c'. fold (\<lambda>kv r. case r of Inl e \<Rightarrow> Inl e
                 | Inr st \<Rightarrow> find_table_statements re_frames (frames - 1) nm (snd kv) st) kvs
               (Inr (acc, c))
             = Inr (acc @ concat (map (\<lambda>kv. declarations_under nm (snd kv)) kvs), c')"
  proof (rule fold_walk)
    fix kv acc c assume kv: "kv \<in> set kvs"
    then have "nesting_depth (snd kv) \<le> fold max (map (\<lambda>kv. nesting_depth (snd kv)) kvs) 0"
      by (intro fold_max_upper) simp
    with JObj.prems have d: "nesting_depth (snd kv) + k \<le> frames - 1" by simp
    have "snd kv \<in> Basic_BNFs.snds kv" by (cases kv) simp
    with kv show "\<exists>c'. find_table_statements re_frames (frames - 1) nm (snd kv) (acc, c)
                   = Inr (acc @ declarations_under nm (snd kv), c')"
      using d by (rule JObj.IH)
  qed
  then obtain c' where f: "fold (\<lambda>kv r. case r of Inl e \<Rightarrow> Inl e
                 | Inr st \<Rightarrow> find_table_statements re_frames (frames - 1) nm (snd kv) st) kvs
               (Inr (acc, c))
             = Inr (acc @ concat (map (\<lambda>kv. declarations_under nm (snd kv)) kvs), c')"
    by blast
  have step: "find_table_statements re_frames frames nm (JObj kvs) (acc, c) =
        fold (\<lambda>kv r. case r of Inl e \<Rightarrow> Inl e
                 | Inr st \<Rightarrow> find_table_statements re_frames (frames - 1) nm (snd kv) st) kvs
               (Inr (acc, c))"
    by (simp only: find_table_statements.simps pos if_False)
  have "find_table_statements re_frames frames nm (JObj kvs) (acc, c)
        = Inr (acc @ declarations_under nm (JObj kvs), c')"
    unfolding step declarations_under_simps by (rule f)
  then show ?case by blast
qed (auto simp: declarations_under_simps)

lemma py_getitem_present:
  "key \<in> set (map fst kvs) \<Longrightarrow> \<exists>v. py_getitem (JObj kvs) key = Inr v"
proof -
  assume "key \<in> set (map fst kvs)"
  then have "map_of kvs key \<noteq> None" by (simp add: map_of_eq_None_iff)
  then show ?thesis by (auto simp: py_getitem_def)
qed

lemma py_getitem_bind:
  assumes "key \<in> set (map fst kvs)" and "\<And>v. \<exists>r. f v = Inr r"
  shows "\<exists>r. exn_bind (py_getitem (JObj kvs) key) f = Inr r"
proof -
  from py_getitem_present [OF assms(1)] obtain v where "py_getitem (JObj kvs) key = Inr v"
    by blast
  with assms(2) [of v] show ?thesis by (simp add: exn_bind_def)
qed

lemma sections_case:
  "\<exists>r. (case p of JStr s \<Rightarrow> Inr (s1 @ [p]) | JArr xs \<Rightarrow> Inr (s1 @ xs) | _ \<Rightarrow> Inr s1)
        = (Inr r :: py_exn + json list)"
  by (cases p) simp_all

lemma config_sections_of_obj: "\<exists>cs. config_sections_of (JObj kvs) = Inr cs"
proof -
  let ?cfg = "JObj kvs"
  have A: "\<exists>s1. (if ''raw_config'' \<in> set (map fst kvs)
                 then exn_bind (py_getitem ?cfg ''raw_config'') (\<lambda>v. Inr [v])
                 else (Inr [] :: py_exn + json list)) = Inr s1"
  proof (cases "''raw_config'' \<in> set (map fst kvs)")
    case True
    from py_getitem_bind [OF True, of "\<lambda>v. Inr [v]"] True show ?thesis by simp
  next
    case False
    then show ?thesis by simp
  qed
  have B: "\<exists>cs. (if ''parameters'' \<in> set (map fst kvs)
                 then exn_bind (py_getitem ?cfg ''parameters'') (\<lambda>p.
                        case p of
                          JStr s \<Rightarrow> Inr (s1 @ [p])
                        | JArr xs \<Rightarrow> Inr (s1 @ xs)
                        | _ \<Rightarrow> Inr s1)
                 else (Inr s1 :: py_exn + json list)) = Inr cs" for s1
  proof (cases "''parameters'' \<in> set (map fst kvs)")
    case True
    from py_getitem_bind [OF True, of "\<lambda>p.
                        case p of
                          JStr s \<Rightarrow> Inr (s1 @ [p])
                        | JArr xs \<Rightarrow> Inr (s1 @ xs)
                        | _ \<Rightarrow> Inr s1", OF sections_case] True
    show ?thesis by simp
  next
    case False
    then show ?thesis by simp
  qed
  from A obtain s1 where s1: "(if ''raw_config'' \<in> set (map fst kvs)
                 then exn_bind (py_getitem ?cfg ''raw_config'') (\<lambda>v. Inr [v])
                 else (Inr [] :: py_exn + json list)) = Inr s1" by blast
  from B [of s1] obtain cs where cs: "(if ''parameters'' \<in> set (map fst kvs)
                 then exn_bind (py_getitem ?cfg ''parameters'') (\<lambda>p.
                        case p of
                          JStr s \<Rightarrow> Inr (s1 @ [p])
                        | JArr xs \<Rightarrow> Inr (s1 @ xs)
                        | _ \<Rightarrow> Inr s1)
                 else (Inr s1 :: py_exn + json list)) = Inr cs" by blast
  have i1: "py_in ''raw_config'' ?cfg = Inr (''raw_config'' \<in> set (map fst kvs))"
    and i2: "py_in ''parameters'' ?cfg = Inr (''parameters'' \<in> set (map fst kvs))"
    by (simp_all add: py_in_def)
  have bind_Inr: "exn_bind (Inr x) f = f x" for x :: 'x and f :: "'x \<Rightarrow> py_exn + json list"
    by (simp add: exn_bind_def)
  have "config_sections_of ?cfg = Inr cs"
    unfolding config_sections_of_def i1 i2 bind_Inr s1 cs ..
  then show ?thesis by blast
qed

lemma scan_extract_obj:
  assumes "is_obj ext" and "is_obj (config_of ext)"
    and "re_frames True \<le> k" and "re_frames False \<le> k"
    and "nesting_depth (config_of ext) + k \<le> frames"
  shows "\<exists>c'. scan_extract re_frames frames ext (acc, c) =
         Inr (acc @ declarations_under (name_of ext) (config_of ext), c')"
proof -
  from assms(1) obtain ekvs where e: "ext = JObj ekvs"
    by (cases ext) (simp_all add: is_obj_def)
  from assms(2) obtain kvs where cf: "config_of ext = JObj kvs"
    by (cases "config_of ext") (simp_all add: is_obj_def)
  from config_sections_of_obj [of kvs] obtain cs where
    cs: "config_sections_of (JObj kvs) = Inr cs" by blast
  have n: "py_get ext ''name'' (JStr ''UNKNOWN'') = Inr (name_of ext)"
    by (simp add: e py_get_def name_of_def)
  have g: "py_get ext ''config'' (JObj []) = Inr (config_of ext)"
    by (simp add: e py_get_def config_of_def)
  have "scan_extract re_frames frames ext (acc, c) =
        find_table_statements re_frames frames (name_of ext) (config_of ext) (acc, c)"
    unfolding scan_extract_def n g by (simp add: exn_bind_def cf cs)
  with find_table_statements_acc [OF assms(3,4,5), of "name_of ext" acc c]
  show ?thesis by simp
qed

lemma scan_extracts_objs:
  assumes "re_frames True \<le> k" and "re_frames False \<le> k"
  shows "list_all (\<lambda>e. is_obj e \<and> is_obj (config_of e)
                      \<and> nesting_depth (config_of e) + k \<le> frames) extracts \<Longrightarrow>
   \<exists>c'. scan_extracts re_frames frames extracts (acc, c) =
     Inr (acc @ concat (map (\<lambda>e. declarations_under (name_of e) (config_of e)) extracts), c')"
proof (induction extracts arbitrary: acc c)
  case Nil
  then show ?case by simp
next
  case (Cons e extracts)
  then have e: "is_obj e" "is_obj (config_of e)" "nesting_depth (config_of e) + k \<le> frames"
    and rest: "list_all (\<lambda>e. is_obj e \<and> is_obj (config_of e)
                      \<and> nesting_depth (config_of e) + k \<le> frames) extracts"
    by simp_all
  from scan_extract_obj [OF e(1,2) assms e(3), of acc c] obtain c1 where
    s: "scan_extract re_frames frames e (acc, c)
        = Inr (acc @ declarations_under (name_of e) (config_of e), c1)" by blast
  from Cons.IH [OF rest, of "acc @ declarations_under (name_of e) (config_of e)" c1]
  show ?case by (simp add: s exn_bind_def)
qed

text \<open>
  C2, for a document that is a mapping whose extract list is a sequence (or absent) of
  mappings, each with a \<^verbatim>\<open>config\<close> that is a mapping or absent and nested no deeper than the
  recursion limit of the interpreter allows (its depth of nesting and the frames that the
  search for the pattern needs fit into the frames left at the call of the walk): the
  extractor returns, in order, one declaration per match of the table pattern per string
  value reachable under the entry's \<^verbatim>\<open>config\<close>, each with the extract's name (the
  placeholder UNKNOWN if it has none) and the whole string as context. Each reachable
  string is searched once, also those under \<^verbatim>\<open>raw_config\<close> and \<^verbatim>\<open>parameters\<close>, and an empty
  or absent \<^verbatim>\<open>config\<close> yields none.
\<close>

theorem extract_table_configs_walk:
  assumes "map_of doc ''extracts'' = Some (JArr extracts)
           \<or> (map_of doc ''extracts'' = None \<and> extracts = [])"
    and "list_all (\<lambda>e. is_obj e \<and> is_obj (config_of e)
            \<and> nesting_depth (config_of e) + max (re_frames True) (re_frames False) \<le> frames)
           extracts"
  shows "extract_table_configs re_frames frames compiled (JObj doc) =
         Inr (concat (map (\<lambda>e. declarations_under (name_of e) (config_of e)) extracts))
       \<and> declarations_under extract_name (JObj []) = []"
proof
  from assms(1) have "exn_bind (py_get (JObj doc) ''extracts'' (JArr [])) py_iter = Inr extracts"
    by (auto simp: py_get_def py_iter_def exn_bind_def)
  then have "extract_table_configs re_frames frames compiled (JObj doc) =
     exn_bind (scan_extracts re_frames frames extracts ([], compiled)) (\<lambda>st. Inr (fst st))"
    by (auto simp: extract_table_configs_def exn_bind_def split: sum.splits)
  moreover have "re_frames True \<le> max (re_frames True) (re_frames False)"
    "re_frames False \<le> max (re_frames True) (re_frames False)" by simp_all
  from scan_extracts_objs [OF this assms(2), of "[]" compiled] obtain c' where
    "scan_extracts re_frames frames extracts ([], compiled) =
     Inr (concat (map (\<lambda>e. declarations_under (name_of e) (config_of e)) extracts), c')"
    by auto
  ultimately show "extract_table_configs re_frames frames compiled (JObj doc) =
         Inr (concat (map (\<lambda>e. declarations_under (name_of e) (config_of e)) extracts))"
    by (simp add: exn_bind_def)
next
  show "declarations_under extract_name (JObj []) = []"
    by (simp add: declarations_under_def)
qed

theorem extract_table_configs_walk_witness:
  "list_all (\<lambda>e. is_obj e \<and> is_obj (config_of e)
        \<and> nesting_depth (config_of e)
            + max ((\<lambda>compiled. if compiled then 2 else 12) True)
                  ((\<lambda>compiled. if compiled then 2 else 12) False) \<le> 16)
     [JObj [(''name'', JStr ''EXT1''),
            (''config'', JObj [(''raw_config'', JStr ''TABLE A  ''),
                              (''parameters'', JArr [JStr ''table b.c, COLEXC x'']),
                              (''other'', JObj [(''deep'', JArr [JInt 3, JStr ''x TABLE d''])])])],
      JObj [(''name'', JStr ''EXT2'')],
      JObj [(''config'', JObj [])]]
   \<and> extract_table_configs (\<lambda>compiled. if compiled then 2 else 12) 16 False
     (JObj [(''extracts'', JArr
     [JObj [(''name'', JStr ''EXT1''),
            (''config'', JObj [(''raw_config'', JStr ''TABLE A  ''),
                              (''parameters'', JArr [JStr ''table b.c, COLEXC x'']),
                              (''other'', JObj [(''deep'', JArr [JInt 3, JStr ''x TABLE d''])])])],
      JObj [(''name'', JStr ''EXT2'')],
      JObj [(''config'', JObj [])]])])
   = Inr [(JStr ''EXT1'', ''TABLE A'', ''TABLE A  ''),
          (JStr ''EXT1'', ''table b.c, COLEXC x'', ''table b.c, COLEXC x''),
          (JStr ''EXT1'', ''TABLE d'', ''x TABLE d'')]"
proof -
  let ?es = "[JObj [(''name'', JStr ''EXT1''),
            (''config'', JObj [(''raw_config'', JStr ''TABLE A  ''),
                              (''parameters'', JArr [JStr ''table b.c, COLEXC x'']),
                              (''other'', JObj [(''deep'', JArr [JInt 3, JStr ''x TABLE d''])])])],
      JObj [(''name'', JStr ''EXT2'')],
      JObj [(''config'', JObj [])]]"
  let ?rf = "\<lambda>compiled::bool. if compiled then 2 else (12::nat)"
  have h1: "map_of [(''extracts'', JArr ?es)] ''extracts'' = Some (JArr ?es)
            \<or> (map_of [(''extracts'', JArr ?es)] ''extracts'' = None \<and> ?es = [])"
    by simp
  have h2: "list_all (\<lambda>e. is_obj e \<and> is_obj (config_of e)
              \<and> nesting_depth (config_of e) + max (?rf True) (?rf False) \<le> 16) ?es"
    by code_simp
  have r: "concat (map (\<lambda>e. declarations_under (name_of e) (config_of e)) ?es)
           = [(JStr ''EXT1'', ''TABLE A'', ''TABLE A  ''),
              (JStr ''EXT1'', ''table b.c, COLEXC x'', ''table b.c, COLEXC x''),
              (JStr ''EXT1'', ''TABLE d'', ''x TABLE d'')]"
    by code_simp
  from extract_table_configs_walk [OF h1 h2, of False] h2 r show ?thesis by simp
qed

text \<open>
  C2, as stated for every parsed document, fails where \<^verbatim>\<open>config\<close> is not a mapping: for a
  \<^verbatim>\<open>config\<close> that is the sequence of the strings raw_config and TABLE ORDERS the walk
  would give one declaration, and for a \<^verbatim>\<open>config\<close> that is null it would give none, but
  in both cases the function raises a TypeError and returns nothing, however many frames
  the interpreter has left.
\<close>

theorem extract_table_configs_raises:
  "extract_table_configs (\<lambda>compiled. if compiled then 2 else 12) 1000 False
      (JObj [(''extracts'', JArr
        [JObj [(''name'', JStr ''EXT1''),
               (''config'', JArr [JStr ''raw_config'', JStr ''TABLE ORDERS''])]])])
     = Inl TypeError
   \<and> declarations_under (JStr ''EXT1'') (JArr [JStr ''raw_config'', JStr ''TABLE ORDERS''])
     = [(JStr ''EXT1'', ''TABLE ORDERS'', ''TABLE ORDERS'')]
   \<and> extract_table_configs (\<lambda>compiled. if compiled then 2 else 12) 1000 False
      (JObj [(''extracts'', JArr
        [JObj [(''name'', JStr ''EXT1''), (''config'', JNull)]])])
     = Inl TypeError
   \<and> declarations_under (JStr ''EXT1'') JNull = []"
  by code_simp

text \<open>
  Beyond the recursion limit the walk raises: with three frames left, a string four levels
  deep is not reached, and the function returns no declarations.
\<close>

lemma extract_table_configs_recursion_error:
  "nesting_depth (JObj [(''a'', JArr [JArr [JStr ''TABLE ORDERS'']])]) = 4
   \<and> extract_table_configs (\<lambda>compiled. 0) 3 False
      (JObj [(''extracts'', JArr
        [JObj [(''name'', JStr ''EXT1''),
               (''config'', JObj [(''a'', JArr [JArr [JStr ''TABLE ORDERS'']])])]])])
     = Inl RecursionError
   \<and> extract_table_configs (\<lambda>compiled. 0) 4 False
      (JObj [(''extracts'', JArr
        [JObj [(''name'', JStr ''EXT1''),
               (''config'', JObj [(''a'', JArr [JArr [JStr ''TABLE ORDERS'']])])]])])
     = Inr [(JStr ''EXT1'', ''TABLE ORDERS'', ''TABLE ORDERS'')]
   \<and> extract_table_configs (\<lambda>compiled. if compiled then 0 else 1) 4 False
      (JObj [(''extracts'', JArr
        [JObj [(''name'', JStr ''EXT1''),
               (''config'', JObj [(''a'', JArr [JArr [JStr ''TABLE ORDERS'']])])]])])
     = Inl RecursionError"
  by code_simp

end
